theory Spec2Isabelle
  imports Complex_Main "HOL-Library.AList" "HOL-Library.Sublist" "HOL-Library.Log_Nat"
begin

section \<open>Data model\<close>

text \<open>
  The program is \<^verbatim>\<open>SDLC_identifier.py\<close>: a binary decision tree grown over a pandas
  DataFrame by exhaustive search for the equality split of largest Gini gain.

  A cell of the table is a number or a string, compared with \<^verbatim>\<open>==\<close> only. A row maps
  every column name to its cell; a DataFrame is its ordered list of column names and its
  ordered list of rows (the index is \<^verbatim>\<open>0..n-1\<close>: \<^verbatim>\<open>read_csv\<close> makes it so and
  \<^verbatim>\<open>reset_index(drop=True)\<close> restores it, so a row label is the row's position).
  \<^verbatim>\<open>partition\<close> represents a side that received no row by the Python list \<^verbatim>\<open>[]\<close>, which
  is not a DataFrame: it has a length, and nothing else the program uses.

  Cells are compared by equality of their values; a missing cell (NaN, which is not
  equal to itself) is not modelled.

  The script's top level (reading the CSV file, printing the tree) and the unused local
  \<^verbatim>\<open>n_features\<close> are left out.
\<close>

datatype cell = Num rat | Str string

type_synonym row = "string \<Rightarrow> cell"

datatype frame = DataFrame "string list" "row list" | PyEmptyList

datatype error = KeyError | TypeError | ZeroDivisionError | AttributeError

text \<open>\<^verbatim>\<open>len(df)\<close>: the number of rows of a DataFrame, 0 for \<^verbatim>\<open>[]\<close>.\<close>

fun len :: "frame \<Rightarrow> nat" where
  "len (DataFrame cols rs) = length rs"
| "len PyEmptyList = 0"

text \<open>The rows a frame holds, in order.\<close>

fun rows_of :: "frame \<Rightarrow> row list" where
  "rows_of (DataFrame cols rs) = rs"
| "rows_of PyEmptyList = []"

text \<open>
  \<^verbatim>\<open>df[col]\<close>: the cells of one column, top to bottom. pandas raises KeyError for a
  name that is not a column; indexing the list \<^verbatim>\<open>[]\<close> with a string is a TypeError.
\<close>

fun column :: "frame \<Rightarrow> string \<Rightarrow> error + cell list" where
  "column (DataFrame cols rs) c =
     (if c \<in> set cols then Inr (map (\<lambda>r. r c) rs) else Inl KeyError)"
| "column PyEmptyList c = Inl TypeError"

text \<open>
  A Question is a column and a value. Its field \<^verbatim>\<open>df\<close> is always the frame that is
  being partitioned, and \<^verbatim>\<open>match(example)\<close> reads row \<^verbatim>\<open>example\<close> of that frame: here
  \<open>match\<close> takes the row.
\<close>

datatype question = Question (q_col: string) (q_value: cell)

definition match :: "question \<Rightarrow> row \<Rightarrow> bool" where
  "match q r = (r (q_col q) = q_value q)"

text \<open>
  \<^verbatim>\<open>Series.unique().tolist()\<close>: the distinct values in order of first appearance.
\<close>

definition unique :: "'a list \<Rightarrow> 'a list" where
  "unique xs = rev (remdups (rev xs))"

definition unique_vals :: "frame \<Rightarrow> string \<Rightarrow> error + cell list" where
  "unique_vals df c = (case column df c of Inl e \<Rightarrow> Inl e | Inr vs \<Rightarrow> Inr (unique vs))"

section \<open>Floating point\<close>

text \<open>
  A Python float is an IEEE 754 binary64 number. A finite double is a rational, and the
  model computes with the rationals that are doubles: every operation returns the exact
  result rounded to the nearest double, ties to the even significand (\<open>fl\<close>).
  \<open>exponent x\<close> is the integer \<open>e\<close> with \<open>2\<^sup>e \<le> \<bar>x\<bar> < 2\<^sup>e\<^sup>+\<^sup>1\<close>; doubles around \<open>x\<close> are
  the multiples of \<open>quantum x\<close>, which is \<open>2\<^sup>e\<^sup>-\<^sup>5\<^sup>2\<close> and never less than \<open>2\<^sup>-\<^sup>1\<^sup>0\<^sup>7\<^sup>4\<close>
  (gradual underflow). The two zeros are one value (they are equal under \<^verbatim>\<open>==\<close> and
  \<^verbatim>\<open>>=\<close>). Overflow is not modelled: the only numbers above 2 that the program makes are
  row counts, and a frame with \<open>2\<^sup>1\<^sup>0\<^sup>2\<^sup>4\<close> rows does not exist.
\<close>

definition exponent :: "rat \<Rightarrow> int" where
  "exponent x =
     (case quotient_of \<bar>x\<bar> of
        (a, b) \<Rightarrow> if 2 powi (bitlen a - bitlen b) \<le> \<bar>x\<bar> then bitlen a - bitlen b
                  else bitlen a - bitlen b - 1)"

definition round_even :: "rat \<Rightarrow> int" where
  "round_even y =
     (if y - of_int \<lfloor>y\<rfloor> < 1 / 2 then \<lfloor>y\<rfloor>
      else if y - of_int \<lfloor>y\<rfloor> > 1 / 2 then \<lfloor>y\<rfloor> + 1
      else if even \<lfloor>y\<rfloor> then \<lfloor>y\<rfloor> else \<lfloor>y\<rfloor> + 1)"

definition quantum :: "rat \<Rightarrow> rat" where
  "quantum x = 2 powi (max (exponent x) (- 1022) - 52)"

definition fl :: "rat \<Rightarrow> rat" where
  "fl x = (if x = 0 then 0 else of_int (round_even (x / quantum x)) * quantum x)"

text \<open>
  \<^verbatim>\<open>float(n)\<close> and the implicit conversion of an \<^verbatim>\<open>int\<close> operand; \<^verbatim>\<open>/\<close>, \<^verbatim>\<open>*\<close> and
  \<^verbatim>\<open>-\<close> on floats.
\<close>

definition float_of_nat :: "nat \<Rightarrow> rat" where
  "float_of_nat n = fl (of_nat n)"

definition fdiv :: "rat \<Rightarrow> rat \<Rightarrow> rat" where
  "fdiv a b = fl (a / b)"

definition fmul :: "rat \<Rightarrow> rat \<Rightarrow> rat" where
  "fmul a b = fl (a * b)"

definition fsub :: "rat \<Rightarrow> rat \<Rightarrow> rat" where
  "fsub a b = fl (a - b)"

text \<open>
  \<^verbatim>\<open>x**2\<close> on a float calls the C library's \<^verbatim>\<open>pow\<close>, and IEEE 754 does not fix its
  result: a library may return either double next to the exact square (a common one
  gives 0.16195716835217136 for \<^verbatim>\<open>(66/164.0)**2\<close>, and the nearest double is
  0.16195716835217133). So the library function is a parameter \<open>pw\<close> of the model,
  \<open>pw x\<close> standing for \<^verbatim>\<open>pow(x, 2.0)\<close>. Where the square is itself a double, \<^verbatim>\<open>pow\<close>
  returns it (as for \<^verbatim>\<open>1.0**2\<close> and \<^verbatim>\<open>0.5**2\<close>). \<open>pow_nearest\<close> is the library that
  always returns the nearest double.
\<close>

definition fsquare :: "(rat \<Rightarrow> rat) \<Rightarrow> rat \<Rightarrow> rat" where
  "fsquare pw x = (if fl (x * x) = x * x then x * x else pw x)"

definition pow_nearest :: "rat \<Rightarrow> rat" where
  "pow_nearest x = fl (x * x)"

section \<open>Counting labels\<close>

text \<open>
  \<^verbatim>\<open>class_counts\<close> fills a dict, which keeps its keys in insertion order: an association
  list with distinct keys. For each label of the column \<^verbatim>\<open>Model\<close>: a key not yet present
  is entered with 0, then the entry is incremented.
\<close>

fun count_labels :: "(cell \<times> nat) list \<Rightarrow> cell list \<Rightarrow> (cell \<times> nat) list" where
  "count_labels counts [] = counts"
| "count_labels counts (label # labels) =
     count_labels
       (case map_of counts label of
          None \<Rightarrow> AList.update label (0 + 1) (AList.update label 0 counts)
        | Some c \<Rightarrow> AList.update label (c + 1) counts)
       labels"

definition class_counts :: "frame \<Rightarrow> error + (cell \<times> nat) list" where
  "class_counts df =
     (case column df ''Model'' of Inl e \<Rightarrow> Inl e | Inr labels \<Rightarrow> Inr (count_labels [] labels))"

section \<open>Partition\<close>

text \<open>
  The loop of \<^verbatim>\<open>partition\<close> visits the rows in order and appends each to one of two
  lists. \<^verbatim>\<open>pd.concat\<close> of a non-empty list of one-row frames is the frame of these rows
  under the same columns; of an empty list it raises ValueError, which the function
  catches and replaces by \<^verbatim>\<open>[]\<close>.
\<close>

fun partition_loop :: "question \<Rightarrow> row list \<Rightarrow> row list \<Rightarrow> row list \<Rightarrow> row list \<times> row list" where
  "partition_loop q [] true_rows false_rows = (true_rows, false_rows)"
| "partition_loop q (r # rs) true_rows false_rows =
     (if match q r then partition_loop q rs (true_rows @ [r]) false_rows
      else partition_loop q rs true_rows (false_rows @ [r]))"

definition concat_reset :: "string list \<Rightarrow> row list \<Rightarrow> frame" where
  "concat_reset cols rs = (case rs of [] \<Rightarrow> PyEmptyList | _ # _ \<Rightarrow> DataFrame cols rs)"

fun partition_df :: "frame \<Rightarrow> string \<Rightarrow> cell \<Rightarrow> error + (frame \<times> frame)" where
  "partition_df (DataFrame cols rs) c v =
     (if c \<notin> set cols then Inl KeyError
      else (case partition_loop (Question c v) rs [] [] of
              (true_rows, false_rows) \<Rightarrow>
                Inr (concat_reset cols true_rows, concat_reset cols false_rows)))"
| "partition_df PyEmptyList c v = Inl TypeError"

section \<open>Impurity and gain\<close>

text \<open>
  \<^verbatim>\<open>gini\<close> starts at 1 and subtracts, for each key of the counts in turn, the square of
  \<^verbatim>\<open>counts[lbl] / float(len(df["Model"]))\<close>, where the length of the column is the
  number of rows. The division is inside the loop: it raises ZeroDivisionError when the
  frame has no rows, if it is reached. \<^verbatim>\<open>info_gain\<close> divides by the sum of the two
  lengths before it calls \<^verbatim>\<open>gini\<close> on the left and then on the right side.
\<close>

fun gini_loop :: "(rat \<Rightarrow> rat) \<Rightarrow> (cell \<times> nat) list \<Rightarrow> nat \<Rightarrow> rat \<Rightarrow> error + rat" where
  "gini_loop pw [] n impurity = Inr impurity"
| "gini_loop pw ((lbl, c) # counts) n impurity =
     (if float_of_nat n = 0 then Inl ZeroDivisionError
      else gini_loop pw counts n
             (fsub impurity (fsquare pw (fdiv (float_of_nat c) (float_of_nat n)))))"

definition gini :: "(rat \<Rightarrow> rat) \<Rightarrow> frame \<Rightarrow> error + rat" where
  "gini pw df =
     (case class_counts df of Inl e \<Rightarrow> Inl e | Inr counts \<Rightarrow> gini_loop pw counts (len df) 1)"

definition info_gain :: "(rat \<Rightarrow> rat) \<Rightarrow> frame \<Rightarrow> frame \<Rightarrow> rat \<Rightarrow> error + rat" where
  "info_gain pw left right current_uncertainty =
     (if float_of_nat (len left + len right) = 0 then Inl ZeroDivisionError
      else (case gini pw left of Inl e \<Rightarrow> Inl e | Inr gl \<Rightarrow>
            (case gini pw right of Inl e \<Rightarrow> Inl e | Inr gr \<Rightarrow>
               Inr (fsub
                      (fsub current_uncertainty
                         (fmul (fdiv (float_of_nat (len left)) (float_of_nat (len left + len right))) gl))
                      (fmul
                         (fsub 1 (fdiv (float_of_nat (len left)) (float_of_nat (len left + len right))))
                         gr)))))"

section \<open>Best-split search\<close>

text \<open>
  The two nested loops of \<^verbatim>\<open>find_best_split\<close>, with the tracked pair
  \<^verbatim>\<open>(best_gain, best_question)\<close> as accumulator. \<^verbatim>\<open>continue\<close> is the recursive call
  with the pair unchanged. \<^verbatim>\<open>for col in df\<close> runs over the column names in order. On
  the list \<^verbatim>\<open>[]\<close> the first statement that uses the argument, \<^verbatim>\<open>gini(df)\<close>, raises.
\<close>

fun values_loop ::
  "(rat \<Rightarrow> rat) \<Rightarrow> frame \<Rightarrow> rat \<Rightarrow> string \<Rightarrow> cell list \<Rightarrow> rat \<times> question option
     \<Rightarrow> error + (rat \<times> question option)" where
  "values_loop pw df current_uncertainty c [] best = Inr best"
| "values_loop pw df current_uncertainty c (v # vs) (best_gain, best_question) =
     (case partition_df df c v of Inl e \<Rightarrow> Inl e
      | Inr (true_rows, false_rows) \<Rightarrow>
          if len true_rows = 0 \<or> len false_rows = 0
          then values_loop pw df current_uncertainty c vs (best_gain, best_question)
          else (case info_gain pw true_rows false_rows current_uncertainty of Inl e \<Rightarrow> Inl e
                | Inr gain \<Rightarrow>
                    if gain \<ge> best_gain
                    then values_loop pw df current_uncertainty c vs (gain, Some (Question c v))
                    else values_loop pw df current_uncertainty c vs (best_gain, best_question)))"

fun columns_loop ::
  "(rat \<Rightarrow> rat) \<Rightarrow> frame \<Rightarrow> rat \<Rightarrow> string list \<Rightarrow> rat \<times> question option
     \<Rightarrow> error + (rat \<times> question option)" where
  "columns_loop pw df current_uncertainty [] best = Inr best"
| "columns_loop pw df current_uncertainty (c # cs) best =
     (if c = ''Model'' then columns_loop pw df current_uncertainty cs best
      else (case unique_vals df c of Inl e \<Rightarrow> Inl e
            | Inr vs \<Rightarrow>
                (case values_loop pw df current_uncertainty c vs best of Inl e \<Rightarrow> Inl e
                 | Inr best' \<Rightarrow> columns_loop pw df current_uncertainty cs best')))"

fun find_best_split :: "(rat \<Rightarrow> rat) \<Rightarrow> frame \<Rightarrow> error + (rat \<times> question option)" where
  "find_best_split pw (DataFrame cols rs) =
     (case gini pw (DataFrame cols rs) of Inl e \<Rightarrow> Inl e
      | Inr current_uncertainty \<Rightarrow>
          columns_loop pw (DataFrame cols rs) current_uncertainty cols (0, None))"
| "find_best_split pw PyEmptyList = Inl TypeError"

section \<open>The tree\<close>

datatype node =
    Leaf "(cell \<times> nat) list"
  | Decision_Node question node node

text \<open>
  \<^verbatim>\<open>build_tree\<close>. Reading \<^verbatim>\<open>question.col\<close> of \<^verbatim>\<open>None\<close> is an AttributeError.
  The recursion is on the frames that \<^verbatim>\<open>partition\<close> returned; that it ends is
  proved below, once the search has been analysed.
\<close>

function build_tree :: "(rat \<Rightarrow> rat) \<Rightarrow> frame \<Rightarrow> error + node" where
  "build_tree pw df =
     (case find_best_split pw df of Inl e \<Rightarrow> Inl e
      | Inr (gain, question) \<Rightarrow>
          if gain = 0
          then (case class_counts df of Inl e \<Rightarrow> Inl e | Inr counts \<Rightarrow> Inr (Leaf counts))
          else (case question of None \<Rightarrow> Inl AttributeError
                | Some q \<Rightarrow>
                    (case partition_df df (q_col q) (q_value q) of Inl e \<Rightarrow> Inl e
                     | Inr (true_rows, false_rows) \<Rightarrow>
                         (case build_tree pw true_rows of Inl e \<Rightarrow> Inl e
                          | Inr true_branch \<Rightarrow>
                              (case build_tree pw false_rows of Inl e \<Rightarrow> Inl e
                               | Inr false_branch \<Rightarrow>
                                   Inr (Decision_Node q true_branch false_branch))))))"
  by pat_completeness auto

section \<open>Notions for stating the properties\<close>

subsection \<open>The search in closed form\<close>

text \<open>
  On a DataFrame that has the column \<^verbatim>\<open>Model\<close> no branch of the functions above
  raises, and their results have closed forms over the list of rows. \<open>impurity\<close> is what
  \<^verbatim>\<open>gini\<close> computes: the keys of the counts are the distinct labels in order of first
  appearance, and each step rounds. \<open>gain_of\<close> is what \<^verbatim>\<open>info_gain\<close> computes.
  \<open>candidates\<close> are the (column, value) pairs in the order the two loops visit them,
  \<open>scored\<close> the candidates with a row on each side together with their gains, and
  \<open>track\<close> is one update of the pair \<^verbatim>\<open>(best_gain, best_question)\<close>.
\<close>

definition labels :: "row list \<Rightarrow> cell list" where
  "labels rs = map (\<lambda>r. r ''Model'') rs"

definition impurity :: "(rat \<Rightarrow> rat) \<Rightarrow> row list \<Rightarrow> rat" where
  "impurity pw rs =
     foldl (\<lambda>i l. fsub i (fsquare pw (fdiv (float_of_nat (count_list (labels rs) l))
                                            (float_of_nat (length rs)))))
       1 (unique (labels rs))"

definition gain_of :: "(rat \<Rightarrow> rat) \<Rightarrow> row list \<Rightarrow> row list \<Rightarrow> rat \<Rightarrow> rat" where
  "gain_of pw ls rs cur =
     fsub (fsub cur (fmul (fdiv (float_of_nat (length ls)) (float_of_nat (length ls + length rs)))
                          (impurity pw ls)))
          (fmul (fsub 1 (fdiv (float_of_nat (length ls)) (float_of_nat (length ls + length rs))))
                (impurity pw rs))"

definition candidates :: "string list \<Rightarrow> row list \<Rightarrow> (string \<times> cell) list" where
  "candidates cols rs =
     concat (map (\<lambda>c. map (Pair c) (unique (map (\<lambda>r. r c) rs))) (filter (\<lambda>c. c \<noteq> ''Model'') cols))"

definition score :: "(rat \<Rightarrow> rat) \<Rightarrow> row list \<Rightarrow> string \<times> cell \<Rightarrow> (rat \<times> question) list" where
  "score pw rs cv =
     (let q = Question (fst cv) (snd cv);
          t = filter (match q) rs;
          f = filter (\<lambda>r. \<not> match q r) rs
      in if length t = 0 \<or> length f = 0 then [] else [(gain_of pw t f (impurity pw rs), q)])"

definition scored :: "(rat \<Rightarrow> rat) \<Rightarrow> string list \<Rightarrow> row list \<Rightarrow> (rat \<times> question) list" where
  "scored pw cols rs = concat (map (score pw rs) (candidates cols rs))"

fun track :: "rat \<times> question option \<Rightarrow> rat \<times> question \<Rightarrow> rat \<times> question option" where
  "track (best_gain, best_question) (gain, q) =
     (if gain \<ge> best_gain then (gain, Some q) else (best_gain, best_question))"

definition best_split :: "(rat \<Rightarrow> rat) \<Rightarrow> string list \<Rightarrow> row list \<Rightarrow> rat \<times> question option" where
  "best_split pw cols rs = foldl track (0, None) (scored pw cols rs)"

subsection \<open>Impurity and gain without rounding\<close>

text \<open>
  The Gini impurity and the gain as the formulas of the specification have them, in
  exact arithmetic: what the doubles of the program approximate.
\<close>

definition impurity_exact :: "row list \<Rightarrow> rat" where
  "impurity_exact rs =
     1 - (\<Sum>l\<in>set (labels rs). (of_nat (count_list (labels rs) l) / of_nat (length rs))\<^sup>2)"

definition gain_exact :: "row list \<Rightarrow> row list \<Rightarrow> rat" where
  "gain_exact ls rs =
     impurity_exact (ls @ rs)
       - (of_nat (length ls) / of_nat (length ls + length rs)) * impurity_exact ls
       - (1 - of_nat (length ls) / of_nat (length ls + length rs)) * impurity_exact rs"

text \<open>
  A library \<^verbatim>\<open>pow\<close> is accurate to one unit in the last place: its result differs from
  the square by at most \<open>2\<^sup>-\<^sup>5\<^sup>2\<close> times the square. (For arguments from \<open>2\<^sup>-\<^sup>5\<^sup>1\<^sup>1\<close> to 1,
  where the shares of the labels lie and the square is far from underflow.)
\<close>

definition pow_accurate :: "(rat \<Rightarrow> rat) \<Rightarrow> bool" where
  "pow_accurate pw = (\<forall>x. 2 powi (- 511) \<le> x \<and> x \<le> 1 \<longrightarrow> \<bar>pw x - x * x\<bar> \<le> 2 powi (- 52) * (x * x))"

subsection \<open>Questions that split\<close>

text \<open>
  A question \<open>splits\<close> a frame when partitioning by it succeeds and leaves a row on
  each side.
\<close>

definition splits :: "frame \<Rightarrow> question \<Rightarrow> bool" where
  "splits df q =
     (case partition_df df (q_col q) (q_value q) of
        Inl e \<Rightarrow> False
      | Inr (t, f) \<Rightarrow> len t \<noteq> 0 \<and> len f \<noteq> 0)"

definition tracked_ok :: "frame \<Rightarrow> rat \<times> question option \<Rightarrow> bool" where
  "tracked_ok df best = (case snd best of None \<Rightarrow> fst best = 0 | Some q \<Rightarrow> splits df q)"

subsection \<open>The search over another impurity function\<close>

text \<open>
  \<^verbatim>\<open>info_gain\<close> and \<^verbatim>\<open>find_best_split\<close> with a function \<open>g\<close> in the place of
  \<^verbatim>\<open>gini\<close>, line by line, to state on which frames the search depends on \<^verbatim>\<open>gini\<close>.
  (With a \<open>g\<close> that accepts \<^verbatim>\<open>[]\<close>, the next statement, \<^verbatim>\<open>len(df.columns)\<close>, raises
  AttributeError.) \<open>gini_checked\<close> is an impurity function that refuses a frame
  without rows with the error that the specification names.
\<close>

definition info_gain_with :: "(frame \<Rightarrow> error + rat) \<Rightarrow> frame \<Rightarrow> frame \<Rightarrow> rat \<Rightarrow> error + rat" where
  "info_gain_with g left right current_uncertainty =
     (if float_of_nat (len left + len right) = 0 then Inl ZeroDivisionError
      else (case g left of Inl e \<Rightarrow> Inl e | Inr gl \<Rightarrow>
            (case g right of Inl e \<Rightarrow> Inl e | Inr gr \<Rightarrow>
               Inr (fsub
                      (fsub current_uncertainty
                         (fmul (fdiv (float_of_nat (len left)) (float_of_nat (len left + len right))) gl))
                      (fmul
                         (fsub 1 (fdiv (float_of_nat (len left)) (float_of_nat (len left + len right))))
                         gr)))))"

fun values_loop_with ::
  "(frame \<Rightarrow> error + rat) \<Rightarrow> frame \<Rightarrow> rat \<Rightarrow> string \<Rightarrow> cell list \<Rightarrow> rat \<times> question option
     \<Rightarrow> error + (rat \<times> question option)" where
  "values_loop_with g df current_uncertainty c [] best = Inr best"
| "values_loop_with g df current_uncertainty c (v # vs) (best_gain, best_question) =
     (case partition_df df c v of Inl e \<Rightarrow> Inl e
      | Inr (true_rows, false_rows) \<Rightarrow>
          if len true_rows = 0 \<or> len false_rows = 0
          then values_loop_with g df current_uncertainty c vs (best_gain, best_question)
          else (case info_gain_with g true_rows false_rows current_uncertainty of Inl e \<Rightarrow> Inl e
                | Inr gain \<Rightarrow>
                    if gain \<ge> best_gain
                    then values_loop_with g df current_uncertainty c vs (gain, Some (Question c v))
                    else values_loop_with g df current_uncertainty c vs (best_gain, best_question)))"

fun columns_loop_with ::
  "(frame \<Rightarrow> error + rat) \<Rightarrow> frame \<Rightarrow> rat \<Rightarrow> string list \<Rightarrow> rat \<times> question option
     \<Rightarrow> error + (rat \<times> question option)" where
  "columns_loop_with g df current_uncertainty [] best = Inr best"
| "columns_loop_with g df current_uncertainty (c # cs) best =
     (if c = ''Model'' then columns_loop_with g df current_uncertainty cs best
      else (case unique_vals df c of Inl e \<Rightarrow> Inl e
            | Inr vs \<Rightarrow>
                (case values_loop_with g df current_uncertainty c vs best of Inl e \<Rightarrow> Inl e
                 | Inr best' \<Rightarrow> columns_loop_with g df current_uncertainty cs best')))"

fun find_best_split_with :: "(frame \<Rightarrow> error + rat) \<Rightarrow> frame \<Rightarrow> error + (rat \<times> question option)" where
  "find_best_split_with g (DataFrame cols rs) =
     (case g (DataFrame cols rs) of Inl e \<Rightarrow> Inl e
      | Inr current_uncertainty \<Rightarrow>
          columns_loop_with g (DataFrame cols rs) current_uncertainty cols (0, None))"
| "find_best_split_with g PyEmptyList =
     (case g PyEmptyList of Inl e \<Rightarrow> Inl e | Inr current_uncertainty \<Rightarrow> Inl AttributeError)"

definition gini_checked :: "(rat \<Rightarrow> rat) \<Rightarrow> frame \<Rightarrow> error + rat" where
  "gini_checked pw df = (if len df = 0 then Inl ZeroDivisionError else gini pw df)"

subsection \<open>Leaves\<close>

text \<open>
  \<open>leaves\<close> lists the count mappings of the leaves of a tree, true branch first;
  \<open>total\<close> adds up the counts of one mapping.
\<close>

fun leaves :: "node \<Rightarrow> (cell \<times> nat) list list" where
  "leaves (Leaf predictions) = [predictions]"
| "leaves (Decision_Node q true_branch false_branch) = leaves true_branch @ leaves false_branch"

definition total :: "(cell \<times> nat) list \<Rightarrow> nat" where
  "total predictions = sum_list (map snd predictions)"

subsection \<open>Interleaving\<close>

text \<open>
  \<open>interleave bs ts fs\<close> rebuilds a list from its two parts: position \<open>i\<close> of the
  result is the next unused element of \<open>ts\<close> when \<open>bs ! i\<close> holds, of \<open>fs\<close> otherwise.
\<close>

fun interleave :: "bool list \<Rightarrow> 'a list \<Rightarrow> 'a list \<Rightarrow> 'a list" where
  "interleave [] ts fs = []"
| "interleave (True # bs) (t # ts) fs = t # interleave bs ts fs"
| "interleave (False # bs) ts (f # fs) = f # interleave bs ts fs"
| "interleave (True # bs) [] fs = []"
| "interleave (False # bs) ts [] = []"

subsection \<open>Small tables\<close>

text \<open>
  A table with the columns \<^verbatim>\<open>Shape\<close> and \<^verbatim>\<open>Model\<close>; \<open>shape_row s m\<close> is the row
  with shape \<open>s\<close> and label \<open>m\<close>. In \<open>shape_data\<close> the shape decides the label; in
  \<open>mixed_data\<close> each shape has one row of each label.
\<close>

definition shape_row :: "string \<Rightarrow> string \<Rightarrow> row" where
  "shape_row s m = (\<lambda>c. Str [])(''Shape'' := Str s, ''Model'' := Str m)"

definition shape_data :: frame where
  "shape_data = DataFrame [''Shape'', ''Model'']
     [shape_row ''V'' ''A'', shape_row ''V'' ''A'', shape_row ''U'' ''B'', shape_row ''U'' ''B'']"

definition mixed_data :: frame where
  "mixed_data = DataFrame [''Shape'', ''Model'']
     [shape_row ''V'' ''A'', shape_row ''U'' ''A'', shape_row ''V'' ''B'', shape_row ''U'' ''B'']"

text \<open>A table with one label and two shapes.\<close>

definition single_data :: frame where
  "single_data = DataFrame [''Shape'', ''Model'']
     [shape_row ''V'' ''A'', shape_row ''U'' ''A'', shape_row ''V'' ''A'']"

text \<open>A table with one shape and two labels: no question splits it.\<close>

definition one_shape_data :: frame where
  "one_shape_data = DataFrame [''Shape'', ''Model''] [shape_row ''V'' ''A'', shape_row ''V'' ''B'']"

text \<open>
  Three rows, two shapes, two labels: the two questions have the same exact gain
  \<open>1/9\<close>, and rounding decides between them.
\<close>

definition tie_data :: frame where
  "tie_data = DataFrame [''Shape'', ''Model'']
     [shape_row ''V'' ''A'', shape_row ''V'' ''B'', shape_row ''U'' ''B'']"

text \<open>Three rows with three labels; and nine rows, a third of them with label A.\<close>

definition abc_data :: frame where
  "abc_data = DataFrame [''Shape'', ''Model'']
     [shape_row ''V'' ''A'', shape_row ''V'' ''B'', shape_row ''V'' ''C'']"

definition thirds_left :: frame where
  "thirds_left = DataFrame [''Shape'', ''Model'']
     [shape_row ''V'' ''A'', shape_row ''V'' ''B'', shape_row ''V'' ''B'']"

definition thirds_right :: frame where
  "thirds_right = DataFrame [''Shape'', ''Model'']
     [shape_row ''U'' ''A'', shape_row ''U'' ''A'', shape_row ''U'' ''B'',
      shape_row ''U'' ''B'', shape_row ''U'' ''B'', shape_row ''U'' ''B'']"

definition thirds_data :: frame where
  "thirds_data = DataFrame [''Shape'', ''Model''] (rows_of thirds_left @ rows_of thirds_right)"

text \<open>A table of \<open>2\<^sup>2\<^sup>7\<close> rows with the labels 0, 1, 2, ..., all different.\<close>

definition distinct_data :: frame where
  "distinct_data =
     DataFrame [''Model''] (map (\<lambda>i c. Num (of_nat i)) [0..<2 ^ 27])"

section \<open>Rounding\<close>

text \<open>
  \<open>exponent\<close> is the binary exponent; rounding to the nearest integer errs by at most a
  half; hence \<open>fl\<close> errs by at most half a quantum, keeps the sign and the bound 1,
  and returns a natural number up to \<open>2\<^sup>5\<^sup>3\<close> unchanged.
\<close>

lemma pos_ratio_bounds:
  fixes a b :: int
  assumes "0 < a" and "0 < b"
  shows "(2::rat) powi (bitlen a - bitlen b - 1) \<le> of_int a / of_int b"
    and "of_int a / of_int b < (2::rat) powi (bitlen a - bitlen b + 1)"
proof -
  from bitlen_bounds [OF assms(1)] have a: "2 ^ nat (bitlen a - 1) \<le> a" "a < 2 ^ nat (bitlen a)"
    by auto
  from bitlen_bounds [OF assms(2)] have b: "2 ^ nat (bitlen b - 1) \<le> b" "b < 2 ^ nat (bitlen b)"
    by auto
  have la: "1 \<le> bitlen a" and lb: "1 \<le> bitlen b"
    using assms by (simp_all add: bitlen_alt_def)
  have ra: "(2::rat) powi (bitlen a - 1) \<le> of_int a" "of_int a < (2::rat) powi (bitlen a)"
  proof -
    have "(2::rat) powi (bitlen a - 1) = of_int (2 ^ nat (bitlen a - 1))"
      using la by (simp add: power_int_nonneg_exp)
    also have "\<dots> \<le> of_int a" using a(1) by (simp only: of_int_le_iff)
    finally show "(2::rat) powi (bitlen a - 1) \<le> of_int a" .
    have "(of_int a :: rat) < of_int (2 ^ nat (bitlen a))"
      using a(2) by (simp only: of_int_less_iff)
    also have "\<dots> = (2::rat) powi (bitlen a)"
      using la by (simp add: power_int_nonneg_exp)
    finally show "of_int a < (2::rat) powi (bitlen a)" .
  qed
  have rb: "(2::rat) powi (bitlen b - 1) \<le> of_int b" "of_int b < (2::rat) powi (bitlen b)"
  proof -
    have "(2::rat) powi (bitlen b - 1) = of_int (2 ^ nat (bitlen b - 1))"
      using lb by (simp add: power_int_nonneg_exp)
    also have "\<dots> \<le> of_int b" using b(1) by (simp only: of_int_le_iff)
    finally show "(2::rat) powi (bitlen b - 1) \<le> of_int b" .
    have "(of_int b :: rat) < of_int (2 ^ nat (bitlen b))"
      using b(2) by (simp only: of_int_less_iff)
    also have "\<dots> = (2::rat) powi (bitlen b)"
      using lb by (simp add: power_int_nonneg_exp)
    finally show "of_int b < (2::rat) powi (bitlen b)" .
  qed
  have pb: "(0::rat) < of_int b" using assms(2) by simp
  have "(2::rat) powi (bitlen a - bitlen b - 1) * of_int b
        \<le> 2 powi (bitlen a - bitlen b - 1) * 2 powi (bitlen b)"
    using rb(2) by (intro mult_left_mono) simp_all
  also have "\<dots> = 2 powi (bitlen a - 1)"
    by (simp add: power_int_add [symmetric])
  also have "\<dots> \<le> of_int a" by (rule ra(1))
  finally show "(2::rat) powi (bitlen a - bitlen b - 1) \<le> of_int a / of_int b"
    using pb by (simp add: pos_le_divide_eq)
  have "(of_int a :: rat) < 2 powi (bitlen a)" by (rule ra(2))
  also have "\<dots> = 2 powi (bitlen a - bitlen b + 1) * 2 powi (bitlen b - 1)"
    by (simp add: power_int_add [symmetric])
  also have "\<dots> \<le> 2 powi (bitlen a - bitlen b + 1) * of_int b"
    using rb(1) by (intro mult_left_mono) simp_all
  finally show "of_int a / of_int b < (2::rat) powi (bitlen a - bitlen b + 1)"
    using pb by (simp add: pos_divide_less_eq)
qed

lemma exponent_bounds:
  assumes "x \<noteq> 0"
  shows "2 powi (exponent x) \<le> \<bar>x\<bar>" and "\<bar>x\<bar> < 2 powi (exponent x + 1)"
proof -
  obtain a b where q: "quotient_of \<bar>x\<bar> = (a, b)"
    by (cases "quotient_of \<bar>x\<bar>")
  then have x: "\<bar>x\<bar> = of_int a / of_int b" and b: "0 < b"
    by (simp_all add: quotient_of_div quotient_of_denom_pos)
  from assms have "0 < \<bar>x\<bar>" by simp
  with x b have a: "0 < a"
    by (simp add: zero_less_divide_iff)
  note r = pos_ratio_bounds [OF a b, folded x]
  show "2 powi (exponent x) \<le> \<bar>x\<bar>"
    using r(1) by (simp add: exponent_def q)
  show "\<bar>x\<bar> < 2 powi (exponent x + 1)"
    using r(2) by (auto simp: exponent_def q not_le)
qed

lemma round_even_cases:
  obtains "round_even y = \<lfloor>y\<rfloor>" and "y - of_int \<lfloor>y\<rfloor> \<le> 1 / 2"
  | "round_even y = \<lfloor>y\<rfloor> + 1" and "1 / 2 \<le> y - of_int \<lfloor>y\<rfloor>"
proof (cases "y - of_int \<lfloor>y\<rfloor> < 1 / 2")
  case True
  then have "round_even y = \<lfloor>y\<rfloor>" by (simp only: round_even_def if_True)
  with True that(1) show ?thesis by simp
next
  case False
  show ?thesis
  proof (cases "y - of_int \<lfloor>y\<rfloor> > 1 / 2")
    case True
    with False have "round_even y = \<lfloor>y\<rfloor> + 1"
      by (simp only: round_even_def if_True if_False)
    with True that(2) show ?thesis by simp
  next
    case n: False
    with False have h: "y - of_int \<lfloor>y\<rfloor> = 1 / 2" by simp
    show ?thesis
    proof (cases "even \<lfloor>y\<rfloor>")
      case True
      with False n have "round_even y = \<lfloor>y\<rfloor>"
        by (simp only: round_even_def if_True if_False)
      with h that(1) show ?thesis by simp
    next
      case o: False
      with False n have "round_even y = \<lfloor>y\<rfloor> + 1"
        by (simp only: round_even_def if_True if_False)
      with h that(2) show ?thesis by simp
    qed
  qed
qed

lemma round_even_error: "\<bar>of_int (round_even y) - y\<bar> \<le> 1 / 2"
proof (rule round_even_cases [of y])
  have f: "of_int \<lfloor>y\<rfloor> \<le> y" "y < of_int \<lfloor>y\<rfloor> + 1"
    by linarith+
  {
    assume "round_even y = \<lfloor>y\<rfloor>" and "y - of_int \<lfloor>y\<rfloor> \<le> 1 / 2"
    with f show ?thesis by (simp add: abs_le_iff)
  next
    assume "round_even y = \<lfloor>y\<rfloor> + 1" and "1 / 2 \<le> y - of_int \<lfloor>y\<rfloor>"
    with f show ?thesis by (simp add: abs_le_iff)
  }
qed

lemma round_even_of_int [simp]: "round_even (of_int k) = k"
  by (simp add: round_even_def)

lemma round_even_le:
  assumes "y \<le> of_int k"
  shows "round_even y \<le> k"
proof (rule round_even_cases [of y])
  assume "round_even y = \<lfloor>y\<rfloor>"
  moreover have "\<lfloor>y\<rfloor> \<le> k" using assms by (simp add: floor_le_iff) 
  ultimately show ?thesis by simp
next
  assume r: "round_even y = \<lfloor>y\<rfloor> + 1" and "1 / 2 \<le> y - of_int \<lfloor>y\<rfloor>"
  then have "(of_int \<lfloor>y\<rfloor> :: rat) < of_int k" using assms by linarith
  then have "\<lfloor>y\<rfloor> < k" by (simp only: of_int_less_iff)
  with r show ?thesis by simp
qed

lemma round_even_ge:
  assumes "of_int k \<le> y"
  shows "k \<le> round_even y"
proof -
  have "k \<le> \<lfloor>y\<rfloor>" using assms by (simp add: le_floor_iff)
  then show ?thesis
    by (rule_tac round_even_cases [of y]) simp_all
qed


lemma quantum_pos [simp]: "0 < quantum x"
  by (simp add: quantum_def)

lemma quantum_nonzero [simp]: "quantum x \<noteq> 0"
  by (simp add: quantum_def)

lemma fl_zero [simp]: "fl 0 = 0"
  by (simp add: fl_def)

lemma fl_error: "\<bar>fl x - x\<bar> \<le> quantum x / 2"
proof (cases "x = 0")
  case True
  then show ?thesis by (simp add: less_imp_le)
next
  case False
  let ?q = "quantum x"
  have "fl x - x = (of_int (round_even (x / ?q)) - x / ?q) * ?q"
    using False by (simp add: fl_def left_diff_distrib)
  then have "\<bar>fl x - x\<bar> = \<bar>of_int (round_even (x / ?q)) - x / ?q\<bar> * ?q"
    by (simp add: abs_mult abs_of_pos)
  also have "\<dots> \<le> 1 / 2 * ?q"
    by (intro mult_right_mono round_even_error) (simp add: less_imp_le)
  finally show ?thesis by simp
qed

lemma powi2_le_iff [simp]: "(2::rat) powi m \<le> 2 powi n \<longleftrightarrow> m \<le> n"
proof
  assume a: "(2::rat) powi m \<le> 2 powi n"
  show "m \<le> n"
  proof (rule ccontr)
    assume "\<not> m \<le> n"
    then have "n < m" by simp
    then have "(2::rat) powi n < 2 powi m"
      by (intro power_int_strict_increasing) simp_all
    with a show False by simp
  qed
next
  assume "m \<le> n"
  then show "(2::rat) powi m \<le> 2 powi n"
    by (intro power_int_increasing) simp_all
qed

lemma powi2_less_iff [simp]: "(2::rat) powi m < 2 powi n \<longleftrightarrow> m < n"
  using powi2_le_iff [of n m] by (simp only: not_le [symmetric])

lemma exponent_le:
  assumes "x \<noteq> 0" and "\<bar>x\<bar> \<le> 2 powi k"
  shows "exponent x \<le> k"
proof -
  have "(2::rat) powi (exponent x) \<le> 2 powi k"
    using exponent_bounds(1) [OF assms(1)] assms(2) by (rule order_trans)
  then show ?thesis by simp
qed

lemma exponent_ge:
  assumes "x \<noteq> 0" and "2 powi k \<le> \<bar>x\<bar>"
  shows "k \<le> exponent x"
proof -
  have "(2::rat) powi k < 2 powi (exponent x + 1)"
    using assms(2) exponent_bounds(2) [OF assms(1)] by (rule le_less_trans)
  then have "k < exponent x + 1" by simp
  then show ?thesis by simp
qed

lemma fl_error_le:
  assumes "\<bar>x\<bar> \<le> 2 powi k" and "- 1022 \<le> k"
  shows "\<bar>fl x - x\<bar> \<le> 2 powi (k - 53)"
proof (cases "x = 0")
  case True
  then show ?thesis by simp
next
  case False
  then have "exponent x \<le> k" using assms(1) by (rule exponent_le)
  with assms(2) have "max (exponent x) (- 1022) - 52 \<le> k - 52" by simp
  then have "quantum x \<le> 2 powi (k - 52)"
    unfolding quantum_def by (intro power_int_increasing) simp_all
  then have "quantum x / 2 \<le> 2 powi (k - 52) / 2" by simp
  also have "\<dots> = 2 powi (k - 53)"
    by (simp add: power_int_diff)
  finally show ?thesis
    using fl_error [of x] by simp
qed

lemma fl_nonneg: "0 \<le> x \<Longrightarrow> 0 \<le> fl x"
proof (cases "x = 0")
  case False
  assume "0 \<le> x"
  then have "of_int 0 \<le> x / quantum x" by (simp add: less_imp_le)
  then have "0 \<le> round_even (x / quantum x)" by (rule round_even_ge)
  then show ?thesis using False by (simp add: fl_def less_imp_le)
qed simp

lemma fl_nonpos: "x \<le> 0 \<Longrightarrow> fl x \<le> 0"
proof (cases "x = 0")
  case False
  assume "x \<le> 0"
  then have "x / quantum x \<le> of_int 0" by (simp add: divide_le_0_iff less_imp_le)
  then have "round_even (x / quantum x) \<le> 0" by (rule round_even_le)
  then show ?thesis using False by (simp add: fl_def mult_le_0_iff less_imp_le)
qed simp

lemma fl_exact:
  assumes "x = of_int k * quantum x"
  shows "fl x = x"
proof (cases "x = 0")
  case False
  have "x / quantum x = of_int k"
    using assms by (metis nonzero_eq_divide_eq quantum_pos less_irrefl)
  then show ?thesis
    using False assms by (simp add: fl_def)
qed simp


lemma fl_le_one:
  assumes "x \<le> 1"
  shows "fl x \<le> 1"
proof (cases "x \<le> 0")
  case True
  then have "fl x \<le> 0" by (rule fl_nonpos)
  then show ?thesis by simp
next
  case False
  then have x: "x \<noteq> 0" "0 < x" by simp_all
  with assms have "\<bar>x\<bar> \<le> 2 powi 0" by simp
  with x(1) have "exponent x \<le> 0" by (rule exponent_le)
  define m where "m = max (exponent x) (- 1022)"
  have m: "m \<le> 0" using \<open>exponent x \<le> 0\<close> by (simp add: m_def)
  have q: "quantum x = 2 powi (m - 52)" by (simp add: quantum_def m_def)
  have "1 / quantum x = 2 powi (52 - m)"
    unfolding q by (simp add: power_int_diff)
  also have "\<dots> = of_int (2 ^ nat (52 - m))"
    using m by (simp add: power_int_nonneg_exp)
  finally have i: "1 / quantum x = of_int (2 ^ nat (52 - m))" .
  have "x / quantum x \<le> 1 / quantum x"
    using assms by (simp add: divide_right_mono less_imp_le)
  then have "round_even (x / quantum x) \<le> 2 ^ nat (52 - m)"
    unfolding i by (rule round_even_le)
  then have "(of_int (round_even (x / quantum x)) :: rat) \<le> of_int (2 ^ nat (52 - m))"
    by (simp only: of_int_le_iff)
  then have "of_int (round_even (x / quantum x)) * quantum x \<le> of_int (2 ^ nat (52 - m)) * quantum x"
    by (intro mult_right_mono) (simp_all add: less_imp_le)
  also have "\<dots> = 1"
    unfolding i [symmetric] by simp
  finally show ?thesis
    using x(1) by (simp add: fl_def)
qed

lemma fl_pos:
  assumes "1 \<le> x"
  shows "0 < fl x"
proof -
  have x: "x \<noteq> 0" using assms by simp
  have "2 powi 0 \<le> \<bar>x\<bar>" using assms by simp
  with x have e: "0 \<le> exponent x" by (rule exponent_ge)
  then have "quantum x = 2 powi (exponent x - 52)"
    by (simp add: quantum_def max_def)
  then have "quantum x / 2 = 2 powi (exponent x - 53)"
    by (simp add: power_int_diff)
  also have "\<dots> < 2 powi (exponent x)" by simp
  also have "\<dots> \<le> \<bar>x\<bar>" using x by (rule exponent_bounds(1))
  finally have "quantum x / 2 < x" using assms by simp
  moreover have "x - fl x \<le> quantum x / 2"
    using fl_error [of x] by (simp only: abs_le_iff) linarith
  ultimately show ?thesis by linarith
qed

lemma fl_of_nat:
  assumes "n \<le> 2 ^ 53"
  shows "fl (of_nat n) = of_nat n"
proof (cases "n = 0")
  case False
  let ?x = "of_nat n :: rat"
  have x: "?x \<noteq> 0" using False by simp
  have "2 powi 0 \<le> \<bar>?x\<bar>" using False by simp
  with x have e0: "0 \<le> exponent ?x" by (rule exponent_ge)
  have "?x \<le> of_nat (2 ^ 53)" using assms by (simp only: of_nat_le_iff)
  then have "\<bar>?x\<bar> \<le> 2 powi 53" by simp
  with x have e53: "exponent ?x \<le> 53" by (rule exponent_le)
  have q: "quantum ?x = 2 powi (exponent ?x - 52)"
    using e0 by (simp add: quantum_def max_def)
  show ?thesis
  proof (cases "exponent ?x \<le> 52")
    case True
    have "2 powi (52 - exponent ?x) * quantum ?x = (1::rat)"
      unfolding q by (simp add: power_int_add [symmetric])
    moreover have "(2::rat) powi (52 - exponent ?x) = of_int (2 ^ nat (52 - exponent ?x))"
      using True by (simp add: power_int_nonneg_exp)
    ultimately have "?x = of_int (int n * 2 ^ nat (52 - exponent ?x)) * quantum ?x"
      by (simp add: mult.assoc)
    then show ?thesis by (rule fl_exact)
  next
    case False
    with e53 have e: "exponent ?x = 53" by simp
    have "2 powi 53 \<le> \<bar>?x\<bar>"
      using exponent_bounds(1) [OF x] by (simp add: e)
    with \<open>\<bar>?x\<bar> \<le> 2 powi 53\<close> have v: "?x = 2 ^ 53" by simp
    have "quantum ?x = 2" by (simp add: q e)
    then have "?x = of_int (2 ^ 52) * quantum ?x"
      by (simp add: v)
    then show ?thesis by (rule fl_exact)
  qed
qed simp

lemma fl_one [simp]: "fl 1 = 1"
  using fl_of_nat [of 1] by simp

lemma float_of_nat_eq_0_iff [simp]: "float_of_nat n = 0 \<longleftrightarrow> n = 0"
proof (cases "n = 0")
  case True
  then show ?thesis by (simp add: float_of_nat_def)
next
  case False
  then have "(1::rat) \<le> of_nat n"
    by (metis of_nat_1 of_nat_le_iff Suc_leI neq0_conv One_nat_def)
  then have "0 < fl (of_nat n)" by (rule fl_pos)
  with False show ?thesis by (simp add: float_of_nat_def)
qed

lemma float_of_nat_exact: "n \<le> 2 ^ 53 \<Longrightarrow> float_of_nat n = of_nat n"
  by (simp add: float_of_nat_def fl_of_nat)

lemma fsquare_one [simp]: "fsquare pw 1 = 1"
  by (simp add: fsquare_def)

lemma fdiv_self [simp]: "a \<noteq> 0 \<Longrightarrow> fdiv a a = 1"
  by (simp add: fdiv_def)

lemma fsub_self [simp]: "fsub a a = 0"
  by (simp add: fsub_def)

lemma fsub_zero [simp]: "fsub 0 0 = 0"
  by (simp add: fsub_def)

lemma fmul_zero_right [simp]: "fmul a 0 = 0"
  by (simp add: fmul_def)

section \<open>A returned question splits the frame\<close>

lemma partition_loop_filter:
  "partition_loop q rs ts fs = (ts @ filter (match q) rs, fs @ filter (\<lambda>r. \<not> match q r) rs)"
  by (induction rs arbitrary: ts fs) auto

lemma len_concat_reset [simp]: "len (concat_reset cols rs) = length rs"
  by (cases rs) (simp_all add: concat_reset_def)

lemma rows_of_concat_reset [simp]: "rows_of (concat_reset cols rs) = rs"
  by (cases rs) (simp_all add: concat_reset_def)

lemma partition_df_Inr:
  assumes "partition_df df c v = Inr (t, f)"
  obtains cols rs where "df = DataFrame cols rs" and "c \<in> set cols"
    and "t = concat_reset cols (filter (match (Question c v)) rs)"
    and "f = concat_reset cols (filter (\<lambda>r. \<not> match (Question c v) r) rs)"
  using assms
  by (cases df) (auto simp: partition_loop_filter split: if_splits)

lemma partition_df_len:
  assumes "partition_df df c v = Inr (t, f)"
  shows "len t + len f = len df"
proof -
  from assms obtain cols rs where "df = DataFrame cols rs"
    and "t = concat_reset cols (filter (match (Question c v)) rs)"
    and "f = concat_reset cols (filter (\<lambda>r. \<not> match (Question c v) r) rs)"
    by (rule partition_df_Inr)
  then show ?thesis
    by (simp add: sum_length_filter_compl)
qed

lemma values_loop_tracked:
  "values_loop pw df cur c vs best = Inr best' \<Longrightarrow> tracked_ok df best \<Longrightarrow> tracked_ok df best'"
proof (induction pw df cur c vs best rule: values_loop.induct)
  case (1 pw df cur c best)
  then show ?case by simp
next
  case (2 pw df cur c v vs best_gain best_question)
  then show ?case
    by (auto simp: tracked_ok_def splits_def split: sum.splits prod.splits if_splits)
qed

lemma columns_loop_tracked:
  "columns_loop pw df cur cs best = Inr best' \<Longrightarrow> tracked_ok df best \<Longrightarrow> tracked_ok df best'"
proof (induction pw df cur cs best rule: columns_loop.induct)
  case (1 pw df cur best)
  then show ?case by simp
next
  case (2 pw df cur c cs best)
  then show ?case
    by (auto split: if_splits sum.splits dest: values_loop_tracked)
qed

lemma find_best_split_tracked:
  "find_best_split pw df = Inr best \<Longrightarrow> tracked_ok df best"
  by (cases df) (auto simp: tracked_ok_def split: sum.splits dest!: columns_loop_tracked)

lemma find_best_split_splits:
  "find_best_split pw df = Inr (gain, Some q) \<Longrightarrow> splits df q"
  by (drule find_best_split_tracked) (simp add: tracked_ok_def)

lemma splits_smaller:
  assumes "splits df q" and "partition_df df (q_col q) (q_value q) = Inr (t, f)"
  shows "len t < len df" and "len f < len df"
  using assms partition_df_len [OF assms(2)] by (auto simp: splits_def)

subsection \<open>The recursion of the tree builder is well-founded\<close>

text \<open>
  Each recursive call of \<open>build_tree\<close> is on a frame with fewer rows than the frame
  partitioned, because a question that \<^verbatim>\<open>find_best_split\<close> returns was scored, and
  only a candidate with a row on each side is scored.
\<close>

termination build_tree
proof (relation "measure (\<lambda>(pw, df). len df)")
  show "wf (measure (\<lambda>(pw, df). len df))" by simp
next
  fix pw df x2 gain question q x2a true_rows false_rows
  assume "find_best_split pw df = Inr x2" "(gain, question) = x2" "question = Some q"
    and "partition_df df (q_col q) (q_value q) = Inr x2a" "(true_rows, false_rows) = x2a"
  then have "splits df q" "partition_df df (q_col q) (q_value q) = Inr (true_rows, false_rows)"
    by (auto intro: find_best_split_splits)
  then show "((pw, true_rows), (pw, df)) \<in> measure (\<lambda>(pw, df). len df)"
    by (simp add: splits_smaller)
next
  fix pw df x2 gain question q x2a true_rows false_rows x2b
  assume "find_best_split pw df = Inr x2" "(gain, question) = x2" "question = Some q"
    and "partition_df df (q_col q) (q_value q) = Inr x2a" "(true_rows, false_rows) = x2a"
  then have "splits df q" "partition_df df (q_col q) (q_value q) = Inr (true_rows, false_rows)"
    by (auto intro: find_best_split_splits)
  then show "((pw, false_rows), (pw, df)) \<in> measure (\<lambda>(pw, df). len df)"
    by (simp add: splits_smaller)
qed

declare build_tree.simps [simp del]

section \<open>The functions return their closed forms\<close>

subsection \<open>The counts are the multiplicities of the labels\<close>

lemma map_of_bump:
  "map_of (case map_of cs l of None \<Rightarrow> AList.update l (0 + 1) (AList.update l 0 cs)
           | Some c \<Rightarrow> AList.update l (c + 1) cs)
   = (map_of cs)(l \<mapsto> (case map_of cs l of None \<Rightarrow> 1 | Some c \<Rightarrow> c + 1))"
  for cs :: "(cell \<times> nat) list"
  by (auto simp: update_conv' split: option.splits)

lemma distinct_bump:
  "distinct (map fst cs) \<Longrightarrow>
   distinct (map fst (case map_of cs l of None \<Rightarrow> AList.update l (0 + 1) (AList.update l 0 cs)
           | Some c \<Rightarrow> AList.update l (c + 1) cs))"
  by (auto simp: distinct_update split: option.splits)

lemma count_labels_distinct:
  "distinct (map fst cs) \<Longrightarrow> distinct (map fst (count_labels cs ls))"
  by (induction cs ls rule: count_labels.induct) (simp_all add: distinct_bump del: One_nat_def)

lemma map_of_count_labels:
  "map_of (count_labels cs ls) l =
     (if l \<in> set ls then Some (count_list ls l + (case map_of cs l of None \<Rightarrow> 0 | Some c \<Rightarrow> c))
      else map_of cs l)"
proof (induction cs ls rule: count_labels.induct)
  case (1 counts)
  then show ?case by simp
next
  case (2 counts label labels)
  show ?case
    unfolding count_labels.simps "2.IH" map_of_bump
    by (auto split: option.splits)
qed

lemma sum_list_alist:
  "distinct (map fst al) \<Longrightarrow>
   (\<Sum>(k, v)\<leftarrow>al. g v) = (\<Sum>k\<in>fst ` set al. g (the (map_of al k)))"
proof (induction al)
  case Nil
  then show ?case by simp
next
  case (Cons p al)
  obtain k v where p: "p = (k, v)" by (cases p)
  from Cons.prems p have k: "k \<notin> fst ` set al" and d: "distinct (map fst al)" by auto
  have "(\<Sum>k'\<in>fst ` set al. g (the (map_of ((k, v) # al) k'))) = (\<Sum>k'\<in>fst ` set al. g (the (map_of al k')))"
    using k by (intro sum.cong) auto
  with Cons.IH [OF d] k show ?case
    by (simp add: p)
qed

lemma keys_count_labels: "fst ` set (count_labels [] ls) = set ls"
proof -
  have "fst ` set (count_labels [] ls) = dom (map_of (count_labels [] ls))"
    by (simp add: dom_map_of_conv_image_fst)
  also have "\<dots> = set ls"
    by (auto simp: map_of_count_labels dom_def)
  finally show ?thesis .
qed

lemma count_labels_snoc:
  "count_labels cs (ls @ [l]) =
     (case map_of (count_labels cs ls) l of
        None \<Rightarrow> AList.update l (0 + 1) (AList.update l 0 (count_labels cs ls))
      | Some c \<Rightarrow> AList.update l (c + 1) (count_labels cs ls))"
  by (induction cs ls rule: count_labels.induct) (simp_all cong: option.case_cong)

lemma unique_snoc: "unique (xs @ [x]) = (if x \<in> set xs then unique xs else unique xs @ [x])"
  by (simp add: unique_def)

lemma unique_Nil [simp]: "unique [] = []"
  by (simp add: unique_def)

lemma set_unique [simp]: "set (unique xs) = set xs"
  by (simp add: unique_def)

lemma distinct_unique [simp]: "distinct (unique xs)"
  by (simp add: unique_def)

lemma keys_list_count_labels: "map fst (count_labels [] ls) = unique ls"
proof (induction ls rule: rev_induct)
  case Nil
  show ?case by simp
next
  case (snoc l ls)
  let ?cs = "count_labels [] ls"
  have k: "set (map fst ?cs) = set ls"
    using keys_count_labels [of ls] by simp
  have m: "map_of ?cs l = None \<longleftrightarrow> l \<notin> set ls"
    by (simp add: map_of_count_labels)
  show ?case
  proof (cases "l \<in> set ls")
    case True
    then obtain c where "map_of ?cs l = Some c"
      using m by (cases "map_of ?cs l") auto
    with True show ?thesis
      by (simp add: count_labels_snoc update_keys k snoc.IH unique_snoc)
  next
    case False
    with m have "map_of ?cs l = None" by simp
    with False show ?thesis
      by (simp add: count_labels_snoc update_keys k snoc.IH unique_snoc del: One_nat_def)
  qed
qed

lemma alist_by_keys:
  "distinct (map fst al) \<Longrightarrow> al = map (\<lambda>k. (k, the (map_of al k))) (map fst al)"
proof (induction al)
  case Nil
  show ?case by simp
next
  case (Cons p al)
  obtain k v where p: "p = (k, v)" by (cases p)
  from Cons.prems p have k: "k \<notin> fst ` set al" and d: "distinct (map fst al)" by auto
  have "map (\<lambda>k'. (k', the (map_of ((k, v) # al) k'))) (map fst al)
      = map (\<lambda>k'. (k', the (map_of al k'))) (map fst al)"
    using k by (intro map_cong refl) auto
  with Cons.IH [OF d] show ?case
    by (simp add: p)
qed

lemma count_labels_unique:
  "count_labels [] ls = map (\<lambda>l. (l, count_list ls l)) (unique ls)"
proof -
  let ?cs = "count_labels [] ls"
  have "?cs = map (\<lambda>k. (k, the (map_of ?cs k))) (map fst ?cs)"
    by (rule alist_by_keys) (simp add: count_labels_distinct)
  also have "\<dots> = map (\<lambda>k. (k, the (map_of ?cs k))) (unique ls)"
    by (simp only: keys_list_count_labels)
  also have "\<dots> = map (\<lambda>l. (l, count_list ls l)) (unique ls)"
    by (intro map_cong refl) (simp add: map_of_count_labels unique_def)
  finally show ?thesis .
qed

subsection \<open>Impurity and gain return their closed forms\<close>

lemma gini_loop_foldl:
  "n \<noteq> 0 \<or> counts = [] \<Longrightarrow>
   gini_loop pw counts n i
     = Inr (foldl (\<lambda>i (l, c). fsub i (fsquare pw (fdiv (float_of_nat c) (float_of_nat n)))) i counts)"
  by (induction pw counts n i rule: gini_loop.induct) auto

lemma class_counts_DataFrame:
  "''Model'' \<in> set cols \<Longrightarrow> class_counts (DataFrame cols rs) = Inr (count_labels [] (labels rs))"
  by (simp add: class_counts_def labels_def)

lemma gini_DataFrame:
  assumes "''Model'' \<in> set cols"
  shows "gini pw (DataFrame cols rs) = Inr (impurity pw rs)"
proof -
  let ?cs = "count_labels [] (labels rs)"
  have ne: "length rs \<noteq> 0 \<or> ?cs = []"
    by (cases rs) (simp_all add: labels_def)
  show ?thesis
    using assms ne
    by (simp add: gini_def class_counts_DataFrame gini_loop_foldl impurity_def
        count_labels_unique foldl_map)
qed

lemma gini_concat_reset:
  "''Model'' \<in> set cols \<Longrightarrow> rs \<noteq> [] \<Longrightarrow> gini pw (concat_reset cols rs) = Inr (impurity pw rs)"
  by (cases rs) (simp_all add: concat_reset_def gini_DataFrame)

lemma info_gain_concat_reset:
  assumes "''Model'' \<in> set cols" and "ls \<noteq> []" and "rs \<noteq> []"
  shows "info_gain pw (concat_reset cols ls) (concat_reset cols rs) cur = Inr (gain_of pw ls rs cur)"
  using assms by (simp add: info_gain_def gini_concat_reset gain_of_def)

subsection \<open>The loops fold \<open>track\<close> over the scored candidates\<close>

lemma partition_df_DataFrame:
  "c \<in> set cols \<Longrightarrow>
   partition_df (DataFrame cols rs) c v =
     Inr (concat_reset cols (filter (match (Question c v)) rs),
          concat_reset cols (filter (\<lambda>r. \<not> match (Question c v) r) rs))"
  by (simp add: partition_loop_filter)

lemma values_loop_fold:
  assumes "''Model'' \<in> set cols" and "c \<in> set cols"
  shows "values_loop pw (DataFrame cols rs) (impurity pw rs) c vs best
         = Inr (foldl track best (concat (map (\<lambda>v. score pw rs (c, v)) vs)))"
proof (induction vs arbitrary: best)
  case Nil
  show ?case by simp
next
  case (Cons v vs)
  obtain bg bq where best: "best = (bg, bq)" by (cases best)
  let ?t = "filter (match (Question c v)) rs"
  let ?f = "filter (\<lambda>r. \<not> match (Question c v) r) rs"
  show ?case
  proof (cases "?t = [] \<or> ?f = []")
    case True
    then have "score pw rs (c, v) = []"
      by (auto simp: score_def)
    with True show ?thesis
      using assms(2) by (auto simp: best partition_df_DataFrame Cons.IH simp del: partition_df.simps)
  next
    case False
    then have sc: "score pw rs (c, v) = [(gain_of pw ?t ?f (impurity pw rs), Question c v)]"
      by (simp add: score_def Let_def)
    from False have ig: "info_gain pw (concat_reset cols ?t) (concat_reset cols ?f) (impurity pw rs)
        = Inr (gain_of pw ?t ?f (impurity pw rs))"
      using assms(1) by (simp add: info_gain_concat_reset)
    from False ig show ?thesis
      using assms(2) by (simp add: best partition_df_DataFrame Cons.IH sc del: partition_df.simps)
  qed
qed

lemma columns_loop_fold:
  assumes "''Model'' \<in> set cols" and "set cs \<subseteq> set cols"
  shows "columns_loop pw (DataFrame cols rs) (impurity pw rs) cs best
         = Inr (foldl track best (concat (map (score pw rs) (candidates cs rs))))"
  using assms(2)
proof (induction cs arbitrary: best)
  case Nil
  show ?case by (simp add: candidates_def)
next
  case (Cons c cs)
  then have c: "c \<in> set cols" and cs: "set cs \<subseteq> set cols" by auto
  have cand: "candidates (c # cs) rs =
      (if c = ''Model'' then [] else map (Pair c) (unique (map (\<lambda>r. r c) rs))) @ candidates cs rs"
    by (simp add: candidates_def)
  show ?case
    using c by (simp add: cand Cons.IH [OF cs] unique_vals_def values_loop_fold [OF assms(1) c]
        map_concat comp_def)
qed

lemma find_best_split_DataFrame:
  "''Model'' \<in> set cols \<Longrightarrow> find_best_split pw (DataFrame cols rs) = Inr (best_split pw cols rs)"
  by (simp add: gini_DataFrame columns_loop_fold best_split_def scored_def)

lemma find_best_split_PyEmptyList: "find_best_split pw PyEmptyList = Inl TypeError"
  by simp

declare find_best_split.simps [simp del]

section \<open>Rounding at given values\<close>

text \<open>
  To evaluate a rounding it is enough to check its result: the exponent by two
  comparisons, and the integer by its distance from the scaled argument (less than a
  half, or exactly a half from an even integer).
\<close>

lemma round_even_near:
  assumes "\<bar>y - of_int k\<bar> < 1 / 2"
  shows "round_even y = k"
proof -
  have "\<bar>of_int (round_even y) - y\<bar> \<le> 1 / 2" by (rule round_even_error)
  with assms have "\<bar>(of_int (round_even y) :: rat) - of_int k\<bar> < 1" by linarith
  then have "\<bar>(of_int (round_even y - k) :: rat)\<bar> < of_int 1" by simp
  then have "\<bar>round_even y - k\<bar> < 1"
    by (simp only: of_int_abs [symmetric] of_int_less_iff)
  then show ?thesis by simp
qed

lemma round_even_tie:
  assumes "\<bar>y - of_int k\<bar> = 1 / 2" and "even k"
  shows "round_even y = k"
proof -
  have f: "of_int \<lfloor>y\<rfloor> \<le> y" "y < of_int \<lfloor>y\<rfloor> + 1"
    by linarith+
  from assms(1) consider "y = of_int k + 1 / 2" | "y = of_int (k - 1) + 1 / 2"
    by (auto simp: abs_if split: if_splits)
  then show ?thesis
  proof cases
    case 1
    then have "\<lfloor>y\<rfloor> = k" by (simp add: floor_unique)
    with 1 assms(2) show ?thesis by (simp add: round_even_def)
  next
    case 2
    then have "\<lfloor>y\<rfloor> = k - 1" by (simp add: floor_unique)
    with 2 assms(2) show ?thesis by (simp add: round_even_def)
  qed
qed

lemma fl_eval:
  assumes "2 powi e \<le> \<bar>x\<bar>" and "\<bar>x\<bar> < 2 powi (e + 1)" and "- 1022 \<le> e"
  shows "fl x = of_int (round_even (x / 2 powi (e - 52))) * 2 powi (e - 52)"
proof -
  have "(0::rat) < 2 powi e" by simp
  then have "0 < \<bar>x\<bar>" using assms(1) by (rule less_le_trans)
  then have x: "x \<noteq> 0" by simp
  from x assms(1) have "e \<le> exponent x" by (rule exponent_ge)
  moreover have "(2::rat) powi (exponent x) < 2 powi (e + 1)"
    using exponent_bounds(1) [OF x] assms(2) by (rule le_less_trans)
  then have "exponent x < e + 1" by simp
  ultimately have "exponent x = e" by simp
  with assms(3) have "quantum x = 2 powi (e - 52)"
    by (simp add: quantum_def max_def)
  with x show ?thesis by (simp add: fl_def)
qed

lemma fl_near:
  assumes "2 powi e \<le> \<bar>x\<bar>" and "\<bar>x\<bar> < 2 powi (e + 1)" and "- 1022 \<le> e"
    and "\<bar>x / 2 powi (e - 52) - of_int k\<bar> < 1 / 2"
  shows "fl x = of_int k * 2 powi (e - 52)"
  by (simp add: fl_eval [OF assms(1-3)] round_even_near [OF assms(4)])

lemma fl_tie:
  assumes "2 powi e \<le> \<bar>x\<bar>" and "\<bar>x\<bar> < 2 powi (e + 1)" and "- 1022 \<le> e"
    and "\<bar>x / 2 powi (e - 52) - of_int k\<bar> = 1 / 2" and "even k"
  shows "fl x = of_int k * 2 powi (e - 52)"
  by (simp add: fl_eval [OF assms(1-3)] round_even_tie [OF assms(4,5)])

text \<open>The roundings that the computations on the small tables below go through.\<close>

lemma fl_value_1: "fl (- (1 / 18014398509481984)) = - (1 / 18014398509481984)"
  using fl_near [of "-54" "- (1 / 18014398509481984)" "-4503599627370496"] by simp

lemma fl_value_2: "fl (- (1 / 36028797018963968)) = - (1 / 36028797018963968)"
  using fl_near [of "-55" "- (1 / 36028797018963968)" "-4503599627370496"] by simp

lemma fl_value_3: "fl (1000799917193443 / 9007199254740992) = 1000799917193443 / 9007199254740992"
  using fl_near [of "-4" "1000799917193443 / 9007199254740992" "8006399337547544"] by simp

lemma fl_value_4: "fl (36057617073158521194928777956921 / 324518553658426726783156020576256) = 2001599834386887 / 18014398509481984"
  using fl_near [of "-4" "36057617073158521194928777956921 / 324518553658426726783156020576256" "8006399337547548"] by simp

lemma fl_value_5: "fl (2001599834386887 / 18014398509481984) = 2001599834386887 / 18014398509481984"
  using fl_near [of "-4" "2001599834386887 / 18014398509481984" "8006399337547548"] by simp

lemma fl_value_6: "fl (12019205691052840398309592652307 / 81129638414606681695789005144064) = 667199944795629 / 4503599627370496"
  using fl_near [of "-3" "12019205691052840398309592652307 / 81129638414606681695789005144064" "5337599558365032"] by simp

lemma fl_value_7: "fl (667199944795629 / 4503599627370496) = 667199944795629 / 4503599627370496"
  using fl_near [of "-3" "667199944795629 / 4503599627370496" "5337599558365032"] by simp

lemma fl_value_8: "fl (6009602845526421199954713519597 / 40564819207303340847894502572032) = 5337599558365033 / 36028797018963968"
  using fl_near [of "-3" "6009602845526421199954713519597 / 40564819207303340847894502572032" "5337599558365033"] by simp

lemma fl_value_9: "fl (1 / 4) = 1 / 4"
  using fl_near [of "-2" "1 / 4" "4503599627370496"] by simp

lemma fl_value_10: "fl (12019205691052840398309592652307 / 40564819207303340847894502572032) = 667199944795629 / 2251799813685248"
  using fl_near [of "-2" "12019205691052840398309592652307 / 40564819207303340847894502572032" "5337599558365032"] by simp

lemma fl_value_11: "fl (667199944795629 / 2251799813685248) = 667199944795629 / 2251799813685248"
  using fl_near [of "-2" "667199944795629 / 2251799813685248" "5337599558365032"] by simp

lemma fl_value_12: "fl (6009602845526421199954713519597 / 20282409603651670423947251286016) = 5337599558365033 / 18014398509481984"
  using fl_near [of "-2" "6009602845526421199954713519597 / 20282409603651670423947251286016" "5337599558365033"] by simp

lemma fl_value_13: "fl (6004799503160661 / 18014398509481984) = 6004799503160661 / 18014398509481984"
  using fl_near [of "-2" "6004799503160661 / 18014398509481984" "6004799503160661"] by simp

lemma fl_value_14: "fl (1 / 3) = 6004799503160661 / 18014398509481984"
  using fl_near [of "-2" "1 / 3" "6004799503160661"] by simp

lemma fl_value_15: "fl (3002399751580331 / 9007199254740992) = 3002399751580331 / 9007199254740992"
  using fl_near [of "-2" "3002399751580331 / 9007199254740992" "6004799503160662"] by simp

lemma fl_value_16: "fl (36057617073158521194928777956921 / 81129638414606681695789005144064) = 2001599834386887 / 4503599627370496"
  using fl_near [of "-2" "36057617073158521194928777956921 / 81129638414606681695789005144064" "8006399337547548"] by simp

lemma fl_value_17: "fl (2001599834386887 / 4503599627370496) = 2001599834386887 / 4503599627370496"
  using fl_near [of "-2" "2001599834386887 / 4503599627370496" "8006399337547548"] by simp

lemma fl_value_18: "fl (1 / 2) = 1 / 2"
  using fl_near [of "-1" "1 / 2" "4503599627370496"] by simp

lemma fl_value_19: "fl (12009599006321321 / 18014398509481984) = 1501199875790165 / 2251799813685248"
  using fl_tie [of "-1" "12009599006321321 / 18014398509481984" "6004799503160660"] by simp

lemma fl_value_20: "fl (2 / 3) = 6004799503160661 / 9007199254740992"
  using fl_near [of "-1" "2 / 3" "6004799503160661"] by simp

lemma fl_value_21: "fl (12009599006321323 / 18014398509481984) = 3002399751580331 / 4503599627370496"
  using fl_tie [of "-1" "12009599006321323 / 18014398509481984" "6004799503160662"] by simp

lemma fl_value_22: "fl (3 / 4) = 3 / 4"
  using fl_near [of "-1" "3 / 4" "6755399441055744"] by simp

lemma fl_value_23: "fl (14011198840708209 / 18014398509481984) = 875699927544263 / 1125899906842624"
  using fl_tie [of "-1" "14011198840708209 / 18014398509481984" "7005599420354104"] by simp

lemma fl_value_24: "fl (16012798675095097 / 18014398509481984) = 2001599834386887 / 2251799813685248"
  using fl_tie [of "-1" "16012798675095097 / 18014398509481984" "8006399337547548"] by simp

lemma fl_value_25: "fl (2) = 2"
  using fl_near [of "1" "2" "4503599627370496"] by simp

lemma fl_value_26: "fl (3) = 3"
  using fl_near [of "1" "3" "6755399441055744"] by simp

lemma fl_value_27: "fl (4) = 4"
  using fl_near [of "2" "4" "4503599627370496"] by simp

lemma fl_value_28: "fl (6) = 6"
  using fl_near [of "2" "6" "6755399441055744"] by simp

lemma fl_value_29: "fl (9) = 9"
  using fl_near [of "3" "9" "5066549580791808"] by simp

lemmas fl_values = fl_value_1 fl_value_2 fl_value_3 fl_value_4 fl_value_5 fl_value_6
  fl_value_7 fl_value_8 fl_value_9 fl_value_10 fl_value_11 fl_value_12
  fl_value_13 fl_value_14 fl_value_15 fl_value_16 fl_value_17 fl_value_18
  fl_value_19 fl_value_20 fl_value_21 fl_value_22 fl_value_23 fl_value_24
  fl_value_25 fl_value_26 fl_value_27 fl_value_28 fl_value_29

lemmas float_ops = float_of_nat_def fdiv_def fmul_def fsub_def fsquare_def pow_nearest_def

lemma shape_row_Shape [simp]: "shape_row s m ''Shape'' = Str s"
  by (simp add: shape_row_def)

lemma shape_row_Model [simp]: "shape_row s m ''Model'' = Str m"
  by (simp add: shape_row_def)

section \<open>The end-to-end example\<close>

lemma shape_data_scored:
  "scored pw [''Shape'', ''Model'']
     [shape_row ''V'' ''A'', shape_row ''V'' ''A'', shape_row ''U'' ''B'', shape_row ''U'' ''B''] =
   [(gain_of pw [shape_row ''V'' ''A'', shape_row ''V'' ''A''] [shape_row ''U'' ''B'', shape_row ''U'' ''B'']
       (impurity pw [shape_row ''V'' ''A'', shape_row ''V'' ''A'', shape_row ''U'' ''B'', shape_row ''U'' ''B'']),
     Question ''Shape'' (Str ''V'')),
    (gain_of pw [shape_row ''U'' ''B'', shape_row ''U'' ''B''] [shape_row ''V'' ''A'', shape_row ''V'' ''A'']
       (impurity pw [shape_row ''V'' ''A'', shape_row ''V'' ''A'', shape_row ''U'' ''B'', shape_row ''U'' ''B'']),
     Question ''Shape'' (Str ''U''))]"
  by (simp add: scored_def candidates_def score_def Let_def unique_def match_def)

lemma shape_data_impurity:
  "impurity pw [shape_row ''V'' ''A'', shape_row ''V'' ''A'', shape_row ''U'' ''B'', shape_row ''U'' ''B'']
     = 1 / 2"
  by (simp add: impurity_def labels_def unique_def float_ops fl_values)

lemma shape_data_impurity_A: "impurity pw [shape_row ''V'' ''A'', shape_row ''V'' ''A''] = 0"
  by (simp add: impurity_def labels_def unique_def float_ops fl_values)

lemma shape_data_impurity_B: "impurity pw [shape_row ''U'' ''B'', shape_row ''U'' ''B''] = 0"
  by (simp add: impurity_def labels_def unique_def float_ops fl_values)

lemma shape_data_split:
  "find_best_split pw shape_data = Inr (1 / 2, Some (Question ''Shape'' (Str ''U'')))"
  by (simp add: shape_data_def find_best_split_DataFrame best_split_def shape_data_scored
      gain_of_def shape_data_impurity shape_data_impurity_A shape_data_impurity_B
      float_ops fl_values)

lemma shape_data_true_side:
  "build_tree pw (DataFrame [''Shape'', ''Model''] [shape_row ''U'' ''B'', shape_row ''U'' ''B''])
     = Inr (Leaf [(Str ''B'', 2)])"
  by (simp add: build_tree.simps find_best_split_DataFrame best_split_def scored_def
      candidates_def score_def Let_def unique_def match_def class_counts_def)

lemma shape_data_false_side:
  "build_tree pw (DataFrame [''Shape'', ''Model''] [shape_row ''V'' ''A'', shape_row ''V'' ''A''])
     = Inr (Leaf [(Str ''A'', 2)])"
  by (simp add: build_tree.simps find_best_split_DataFrame best_split_def scored_def
      candidates_def score_def Let_def unique_def match_def class_counts_def)

lemma shape_data_build:
  "build_tree pw shape_data =
     Inr (Decision_Node (Question ''Shape'' (Str ''U''))
            (Leaf [(Str ''B'', 2)]) (Leaf [(Str ''A'', 2)]))"
proof -
  have p: "partition_df shape_data ''Shape'' (Str ''U'') =
      Inr (DataFrame [''Shape'', ''Model''] [shape_row ''U'' ''B'', shape_row ''U'' ''B''],
           DataFrame [''Shape'', ''Model''] [shape_row ''V'' ''A'', shape_row ''V'' ''A''])"
    by (simp add: shape_data_def match_def concat_reset_def)
  show ?thesis
    by (subst build_tree.simps)
      (simp add: shape_data_split p shape_data_true_side shape_data_false_side)
qed

text \<open>
  Claim C1, as the specification has it: on the table with Shape V, V, U, U and Model
  A, A, B, B the best split has gain 1.0. It does not: the impurity of the table is
  \<open>1 - (1/2)\<^sup>2 - (1/2)\<^sup>2 = 1/2\<close>, both sides of the split are pure, so the gain
  is \<open>1/2\<close>, the largest value a Gini gain over two labels can take. (None of these
  operations rounds.)
\<close>

theorem shape_data_gain_not_one:
  "find_best_split pow_nearest shape_data \<noteq> Inr (1, Some (Question ''Shape'' (Str ''V'')))
   \<and> find_best_split pow_nearest shape_data \<noteq> Inr (1, Some (Question ''Shape'' (Str ''U'')))"
  by (simp add: shape_data_split)

text \<open>
  Claim C1, amended: on that table \<^verbatim>\<open>find_best_split\<close> returns the gain \<open>1/2\<close> with
  the question \<^verbatim>\<open>Shape == U\<close> (the last of the two equally good candidates), and
  \<^verbatim>\<open>build_tree\<close> returns a Decision Node on that question whose children are the pure
  leaves \<open>{B: 2}\<close> (true branch) and \<open>{A: 2}\<close> (false branch), whatever the library's
  \<^verbatim>\<open>pow\<close>.
\<close>

theorem shape_data_tree:
  "find_best_split pw shape_data = Inr (1 / 2, Some (Question ''Shape'' (Str ''U'')))
   \<and> build_tree pw shape_data =
       Inr (Decision_Node (Question ''Shape'' (Str ''U''))
              (Leaf [(Str ''B'', 2)]) (Leaf [(Str ''A'', 2)]))"
  by (simp add: shape_data_split shape_data_build)

section \<open>What the search returns\<close>

subsection \<open>Folding \<open>track\<close>\<close>

lemma foldl_track_mono: "fst best \<le> fst (foldl track best xs)"
proof (induction xs arbitrary: best)
  case Nil
  show ?case by simp
next
  case (Cons x xs)
  obtain bg bq g q where "best = (bg, bq)" "x = (g, q)"
    by (cases best, cases x) auto
  then show ?case
    using Cons.IH [of "track best x"] by (auto split: if_splits)
qed

lemma foldl_track_Some:
  "snd best \<noteq> None \<Longrightarrow> snd (foldl track best xs) \<noteq> None"
proof (induction xs arbitrary: best)
  case Nil
  then show ?case by simp
next
  case (Cons x xs)
  obtain bg bq g q where "best = (bg, bq)" "x = (g, q)"
    by (cases best, cases x) auto
  with Cons.prems show ?case
    using Cons.IH [of "track best x"] by (auto split: if_splits)
qed

lemma foldl_track_None:
  "snd (foldl track best xs) = None \<Longrightarrow> foldl track best xs = best"
proof (induction xs arbitrary: best)
  case Nil
  then show ?case by simp
next
  case (Cons x xs)
  obtain bg bq g q where bx: "best = (bg, bq)" "x = (g, q)"
    by (cases best, cases x) auto
  show ?case
  proof (cases "g \<ge> bg")
    case True
    then have "snd (foldl track best (x # xs)) \<noteq> None"
      using foldl_track_Some [of "(g, Some q)" xs] by (simp add: bx)
    with Cons.prems show ?thesis by simp
  next
    case False
    with Cons show ?thesis by (simp add: bx)
  qed
qed


lemma foldl_track_upper:
  "(g, q) \<in> set xs \<Longrightarrow> g \<le> fst (foldl track best xs)"
proof (induction xs arbitrary: best)
  case Nil
  then show ?case by simp
next
  case (Cons x xs)
  obtain bg bq g' q' where bx: "best = (bg, bq)" "x = (g', q')"
    by (cases best, cases x) auto
  show ?case
  proof (cases "(g, q) = x")
    case True
    have "fst (track best x) \<le> fst (foldl track (track best x) xs)"
      by (rule foldl_track_mono)
    moreover have "g \<le> fst (track best x)"
      using True by (auto simp: bx)
    ultimately show ?thesis by simp
  next
    case False
    with Cons.prems have "(g, q) \<in> set xs" by simp
    then show ?thesis
      using Cons.IH by simp
  qed
qed

lemma foldl_track_last:
  "foldl track best xs = (gain, Some q) \<Longrightarrow> snd best = None \<Longrightarrow>
   \<exists>before after. xs = before @ (gain, q) # after \<and> (\<forall>(g, q')\<in>set after. g < gain)"
proof (induction xs rule: rev_induct)
  case Nil
  then show ?case by (cases best) simp
next
  case (snoc x xs)
  obtain bg bq where b: "foldl track best xs = (bg, bq)"
    by (cases "foldl track best xs")
  obtain g' q' where x: "x = (g', q')"
    by (cases x)
  show ?case
  proof (cases "g' \<ge> bg")
    case True
    with snoc.prems(1) have "(gain, q) = x"
      by (simp add: b x)
    then have "xs @ [x] = xs @ (gain, q) # []" by simp
    then show ?thesis by fastforce
  next
    case False
    with snoc.prems(1) have r: "foldl track best xs = (gain, Some q)" and lt: "g' < gain"
      by (simp_all add: b x)
    from snoc.IH [OF r snoc.prems(2)] obtain before after
      where "xs = before @ (gain, q) # after" and "\<forall>(g, q')\<in>set after. g < gain"
      by blast
    with lt have "xs @ [x] = before @ (gain, q) # (after @ [x])"
      and "\<forall>(g, q')\<in>set (after @ [x]). g < gain"
      by (auto simp: x)
    then show ?thesis by blast
  qed
qed

lemma foldl_track_None_iff:
  "snd (foldl track (b, None) xs) = None \<longleftrightarrow> (\<forall>(g, q)\<in>set xs. g < b)"
proof (induction xs)
  case Nil
  show ?case by simp
next
  case (Cons x xs)
  obtain g q where x: "x = (g, q)"
    by (cases x)
  show ?case
  proof (cases "g \<ge> b")
    case True
    then have "snd (foldl track (b, None) (x # xs)) \<noteq> None"
      using foldl_track_Some [of "(g, Some q)" xs] by (simp add: x)
    with True show ?thesis by (auto simp: x)
  next
    case False
    with Cons show ?thesis by (simp add: x)
  qed
qed

lemma foldl_track_cases:
  "foldl track best xs = best \<or> (\<exists>g q. (g, q) \<in> set xs \<and> foldl track best xs = (g, Some q))"
proof (induction xs arbitrary: best)
  case Nil
  show ?case by simp
next
  case (Cons x xs)
  obtain bg bq g q where bx: "best = (bg, bq)" "x = (g, q)"
    by (cases best, cases x) auto
  from Cons.IH [of "track best x"] show ?case
  proof
    assume "foldl track (track best x) xs = track best x"
    then show ?thesis
      by (auto simp: bx)
  next
    assume "\<exists>g q. (g, q) \<in> set xs \<and> foldl track (track best x) xs = (g, Some q)"
    then show ?thesis
      by auto
  qed
qed

lemma best_split_nonneg: "0 \<le> fst (best_split pw cols rs)"
  using foldl_track_mono [of "(0, None)" "scored pw cols rs"] by (simp add: best_split_def)

lemma best_split_None: "snd (best_split pw cols rs) = None \<Longrightarrow> best_split pw cols rs = (0, None)"
  unfolding best_split_def by (rule foldl_track_None)

lemma best_split_None_iff:
  "snd (best_split pw cols rs) = None \<longleftrightarrow> (\<forall>(g, q)\<in>set (scored pw cols rs). g < 0)"
  unfolding best_split_def by (rule foldl_track_None_iff)

lemma best_split_Some:
  assumes "best_split pw cols rs = (gain, Some q)"
  shows "(gain, q) \<in> set (scored pw cols rs)"
  using foldl_track_cases [of "(0, None)" "scored pw cols rs"] assms
  by (auto simp: best_split_def)

lemma best_split_zero_iff:
  "fst (best_split pw cols rs) = 0 \<longleftrightarrow> (\<forall>(g, q)\<in>set (scored pw cols rs). g \<le> 0)"
proof
  assume z: "fst (best_split pw cols rs) = 0"
  show "\<forall>(g, q)\<in>set (scored pw cols rs). g \<le> 0"
  proof (clarify)
    fix g q
    assume "(g, q) \<in> set (scored pw cols rs)"
    from foldl_track_upper [OF this, of "(0, None)"] z show "g \<le> 0"
      by (simp add: best_split_def)
  qed
next
  assume a: "\<forall>(g, q)\<in>set (scored pw cols rs). g \<le> 0"
  from foldl_track_cases [of "(0, None)" "scored pw cols rs"]
  have "fst (best_split pw cols rs) \<le> 0"
    using a by (auto simp: best_split_def)
  with best_split_nonneg [of pw cols rs] show "fst (best_split pw cols rs) = 0"
    by simp
qed

subsection \<open>Gain 0 and the question\<close>

lemma mixed_data_scored:
  "scored pw [''Shape'', ''Model'']
     [shape_row ''V'' ''A'', shape_row ''U'' ''A'', shape_row ''V'' ''B'', shape_row ''U'' ''B''] =
   [(gain_of pw [shape_row ''V'' ''A'', shape_row ''V'' ''B''] [shape_row ''U'' ''A'', shape_row ''U'' ''B'']
       (impurity pw [shape_row ''V'' ''A'', shape_row ''U'' ''A'', shape_row ''V'' ''B'', shape_row ''U'' ''B'']),
     Question ''Shape'' (Str ''V'')),
    (gain_of pw [shape_row ''U'' ''A'', shape_row ''U'' ''B''] [shape_row ''V'' ''A'', shape_row ''V'' ''B'']
       (impurity pw [shape_row ''V'' ''A'', shape_row ''U'' ''A'', shape_row ''V'' ''B'', shape_row ''U'' ''B'']),
     Question ''Shape'' (Str ''U''))]"
  by (simp add: scored_def candidates_def score_def Let_def unique_def match_def)

lemma mixed_data_impurity:
  "impurity pw [shape_row ''V'' ''A'', shape_row ''U'' ''A'', shape_row ''V'' ''B'', shape_row ''U'' ''B'']
     = 1 / 2"
  by (simp add: impurity_def labels_def unique_def float_ops fl_values)

lemma mixed_data_impurity_side: "impurity pw [shape_row s ''A'', shape_row s ''B''] = 1 / 2"
  by (simp add: impurity_def labels_def unique_def float_ops fl_values)

lemma mixed_data_gains:
  "scored pw [''Shape'', ''Model'']
     [shape_row ''V'' ''A'', shape_row ''U'' ''A'', shape_row ''V'' ''B'', shape_row ''U'' ''B'']
   = [(0, Question ''Shape'' (Str ''V'')), (0, Question ''Shape'' (Str ''U''))]"
  by (simp add: mixed_data_scored gain_of_def mixed_data_impurity mixed_data_impurity_side
      float_ops fl_values)

lemma one_shape_data_scored:
  "scored pw [''Shape'', ''Model''] [shape_row ''V'' ''A'', shape_row ''V'' ''B''] = []"
  by (simp add: scored_def candidates_def score_def Let_def unique_def match_def)

text \<open>
  Claim C2, as the specification has it: whenever the returned best gain is 0, the
  returned question is none. It is not so: the test is \<^verbatim>\<open>gain >= best_gain\<close>, so a
  scored candidate of gain exactly 0 replaces the initial \<^verbatim>\<open>None\<close>. On \<open>mixed_data\<close>
  both sides of either split hold one A and one B, every gain is 0 (no operation
  rounds), and the search returns gain 0 together with the last candidate.
\<close>

theorem mixed_data_zero_gain_question:
  "find_best_split pow_nearest mixed_data = Inr (0, Some (Question ''Shape'' (Str ''U'')))"
  by (simp add: mixed_data_def find_best_split_DataFrame best_split_def mixed_data_gains)

text \<open>
  Claim C2, amended: on every dataset with the label column (empty or not)
  \<^verbatim>\<open>find_best_split\<close> returns a pair \<^verbatim>\<open>(best_gain, best_question)\<close> with
  \<open>best_gain \<ge> 0\<close>. The returned question is none exactly when no scored candidate has
  a gain \<open>\<ge> 0\<close> (every scored gain is negative, or no candidate is scored), and then the
  returned gain is 0. The returned gain is 0 exactly when no scored gain is positive;
  so with gain 0 the question is none only if no scored gain is 0 either. A returned
  question is a scored candidate, returned with its own gain. The proof uses the order
  of the gains only, not their values.
\<close>

theorem find_best_split_none_gain:
  assumes "''Model'' \<in> set cols"
  shows "\<exists>gain question. find_best_split pw (DataFrame cols rs) = Inr (gain, question)
           \<and> 0 \<le> gain
           \<and> (question = None \<longleftrightarrow> (\<forall>(g, q)\<in>set (scored pw cols rs). g < 0))
           \<and> (question = None \<longrightarrow> gain = 0)
           \<and> (gain = 0 \<longleftrightarrow> (\<forall>(g, q)\<in>set (scored pw cols rs). g \<le> 0))
           \<and> (\<forall>q. question = Some q \<longrightarrow> (gain, q) \<in> set (scored pw cols rs))"
proof -
  obtain gain question where b: "best_split pw cols rs = (gain, question)"
    by (cases "best_split pw cols rs")
  have "0 \<le> gain"
    using best_split_nonneg [of pw cols rs] by (simp add: b)
  moreover have "question = None \<longleftrightarrow> (\<forall>(g, q)\<in>set (scored pw cols rs). g < 0)"
    using best_split_None_iff [of pw cols rs] by (simp add: b)
  moreover have "question = None \<longrightarrow> gain = 0"
    using best_split_None [of pw cols rs] by (auto simp: b)
  moreover have "gain = 0 \<longleftrightarrow> (\<forall>(g, q)\<in>set (scored pw cols rs). g \<le> 0)"
    using best_split_zero_iff [of pw cols rs] by (simp add: b)
  moreover have "\<forall>q. question = Some q \<longrightarrow> (gain, q) \<in> set (scored pw cols rs)"
    using best_split_Some [of pw cols rs gain] by (auto simp: b)
  ultimately show ?thesis
    using assms by (simp add: find_best_split_DataFrame b)
qed

theorem find_best_split_none_gain_witness:
  "(\<exists>q. find_best_split pow_nearest mixed_data = Inr (0, Some q))
   \<and> find_best_split pow_nearest one_shape_data = Inr (0, None)"
proof -
  have m: "''Model'' \<in> set [''Shape'', ''Model'']" by simp
  from find_best_split_none_gain [OF m, of pow_nearest
      "[shape_row ''V'' ''A'', shape_row ''U'' ''A'', shape_row ''V'' ''B'', shape_row ''U'' ''B'']"]
  have "\<exists>q. find_best_split pow_nearest mixed_data = Inr (0, Some q)"
    unfolding mixed_data_def mixed_data_gains by auto
  moreover
  from find_best_split_none_gain [OF m, of pow_nearest "[shape_row ''V'' ''A'', shape_row ''V'' ''B'']"]
  have "find_best_split pow_nearest one_shape_data = Inr (0, None)"
    unfolding one_shape_data_def one_shape_data_scored by auto
  ultimately show ?thesis ..
qed

section \<open>Impurity of a frame without rows\<close>

subsection \<open>The search calls the impurity on frames with rows only\<close>

lemma info_gain_with_eq:
  assumes "\<forall>x. len x \<noteq> 0 \<longrightarrow> g x = gini pw x" and "len t \<noteq> 0" and "len f \<noteq> 0"
  shows "info_gain_with g t f cur = info_gain pw t f cur"
proof -
  from assms have "g t = gini pw t" and "g f = gini pw f"
    by simp_all
  then show ?thesis
    by (simp add: info_gain_with_def info_gain_def cong: sum.case_cong)
qed

lemma values_loop_with_eq:
  assumes "\<forall>x. len x \<noteq> 0 \<longrightarrow> g x = gini pw x"
  shows "values_loop_with g df cur c vs best = values_loop pw df cur c vs best"
proof (induction vs arbitrary: best)
  case Nil
  show ?case by simp
next
  case (Cons v vs)
  obtain bg bq where best: "best = (bg, bq)"
    by (cases best)
  show ?case
  proof (cases "partition_df df c v")
    case (Inl e)
    then show ?thesis by (simp add: best)
  next
    case (Inr tf)
    obtain t f where tf: "tf = (t, f)"
      by (cases tf)
    show ?thesis
    proof (cases "len t = 0 \<or> len f = 0")
      case True
      then show ?thesis
        using Cons.IH by (simp add: best Inr tf)
    next
      case False
      then have "info_gain_with g t f cur = info_gain pw t f cur"
        using assms by (simp add: info_gain_with_eq)
      with False show ?thesis
        using Cons.IH by (simp add: best Inr tf split: sum.splits)
    qed
  qed
qed

lemma columns_loop_with_eq:
  assumes "\<forall>x. len x \<noteq> 0 \<longrightarrow> g x = gini pw x"
  shows "columns_loop_with g df cur cs best = columns_loop pw df cur cs best"
proof (induction cs arbitrary: best)
  case Nil
  show ?case by simp
next
  case (Cons c cs)
  then show ?case
    by (simp add: values_loop_with_eq [OF assms] split: sum.splits)
qed

lemma find_best_split_with_eq:
  assumes "\<forall>x. len x \<noteq> 0 \<longrightarrow> g x = gini pw x" and "rs \<noteq> []"
  shows "find_best_split_with g (DataFrame cols rs) = find_best_split pw (DataFrame cols rs)"
proof -
  from assms have "g (DataFrame cols rs) = gini pw (DataFrame cols rs)"
    by simp
  then show ?thesis
    by (simp add: find_best_split.simps columns_loop_with_eq [OF assms(1)] split: sum.splits)
qed

lemma find_best_split_with_gini: "find_best_split_with (gini pw) df = find_best_split pw df"
proof (cases df)
  case (DataFrame cols rs)
  have "columns_loop_with (gini pw) df cur cs best = columns_loop pw df cur cs best" for cur cs best
    by (rule columns_loop_with_eq) simp
  then show ?thesis
    by (simp add: DataFrame find_best_split.simps split: sum.splits)
next
  case PyEmptyList
  then show ?thesis
    by (simp add: find_best_split.simps gini_def class_counts_def)
qed

text \<open>
  Claim C3, as the specification has it: \<^verbatim>\<open>gini\<close> on a dataset with zero rows fails
  with a division error. It does not. The division stands inside the loop over the
  counted labels; a DataFrame without rows has no label, the loop body never runs, and
  the initial value 1 is returned. The other value without rows that the program makes,
  the list \<^verbatim>\<open>[]\<close> of \<^verbatim>\<open>partition\<close>, cannot be indexed by \<^verbatim>\<open>"Model"\<close>: a TypeError.
\<close>

theorem gini_no_rows_no_division:
  "gini pow_nearest (DataFrame [''Shape'', ''Model''] []) = Inr 1
   \<and> gini pow_nearest PyEmptyList = Inl TypeError"
  by (simp add: gini_DataFrame impurity_def labels_def gini_def class_counts_def)

text \<open>
  Claim C3, amended: on a DataFrame with the label column and no rows \<^verbatim>\<open>gini\<close>
  returns 1, and on \<^verbatim>\<open>[]\<close> it raises TypeError. On a dataset that has rows
  \<^verbatim>\<open>find_best_split\<close> returns a pair, no error (a call of \<^verbatim>\<open>gini\<close> on an empty side,
  which is \<^verbatim>\<open>[]\<close>, would raise), and it calls \<^verbatim>\<open>gini\<close> on frames with rows only: with
  any function \<open>g\<close> in the place of \<^verbatim>\<open>gini\<close> that agrees with \<^verbatim>\<open>gini\<close> on the frames
  with rows, whatever it does on the others, the search returns the same.
  (\<open>find_best_split_with\<close> takes the function as an argument, and with \<^verbatim>\<open>gini\<close> itself
  it is \<^verbatim>\<open>find_best_split\<close>, on every argument.)
\<close>

theorem gini_no_rows:
  assumes "''Model'' \<in> set cols"
  shows "gini pw (DataFrame cols []) = Inr 1
       \<and> gini pw PyEmptyList = Inl TypeError
       \<and> find_best_split_with (gini pw) df = find_best_split pw df
       \<and> (rs \<noteq> [] \<longrightarrow>
            (\<exists>best. find_best_split pw (DataFrame cols rs) = Inr best)
            \<and> (\<forall>g. (\<forall>x. len x \<noteq> 0 \<longrightarrow> g x = gini pw x) \<longrightarrow>
                  find_best_split_with g (DataFrame cols rs) = find_best_split pw (DataFrame cols rs)))"
proof -
  have "gini pw (DataFrame cols []) = Inr 1"
    using assms by (simp add: gini_DataFrame impurity_def labels_def)
  moreover have "gini pw PyEmptyList = Inl TypeError"
    by (simp add: gini_def class_counts_def)
  moreover have "\<exists>best. find_best_split pw (DataFrame cols rs) = Inr best"
    using assms by (simp add: find_best_split_DataFrame)
  moreover have "find_best_split_with g (DataFrame cols rs) = find_best_split pw (DataFrame cols rs)"
    if "rs \<noteq> []" and "\<forall>x. len x \<noteq> 0 \<longrightarrow> g x = gini pw x" for g
    using that(2,1) by (rule find_best_split_with_eq)
  ultimately show ?thesis
    by (simp add: find_best_split_with_gini)
qed

theorem gini_no_rows_witness:
  "gini pow_nearest (DataFrame [''Shape'', ''Model''] []) = Inr 1
   \<and> gini pow_nearest PyEmptyList = Inl TypeError
   \<and> find_best_split pow_nearest one_shape_data = Inr (0, None)
   \<and> find_best_split_with (gini_checked pow_nearest) one_shape_data = Inr (0, None)"
proof -
  let ?rs = "[shape_row ''V'' ''A'', shape_row ''V'' ''B'']"
  have m: "''Model'' \<in> set [''Shape'', ''Model'']" by simp
  have c: "\<forall>x. len x \<noteq> 0 \<longrightarrow> gini_checked pow_nearest x = gini pow_nearest x"
    by (simp add: gini_checked_def)
  have f: "find_best_split pow_nearest one_shape_data = Inr (0, None)"
    by (simp add: one_shape_data_def find_best_split_DataFrame best_split_def one_shape_data_scored)
  note t = gini_no_rows [OF m, of pow_nearest PyEmptyList ?rs]
  from t have "find_best_split_with (gini_checked pow_nearest) (DataFrame [''Shape'', ''Model''] ?rs)
      = find_best_split pow_nearest (DataFrame [''Shape'', ''Model''] ?rs)"
    using c by simp
  with t f show ?thesis
    by (simp add: one_shape_data_def)
qed

section \<open>The tree, by induction on the number of rows\<close>

lemma total_count_labels: "total (count_labels [] ls) = length ls"
proof -
  let ?cs = "count_labels [] ls"
  have "total ?cs = (\<Sum>(k, v)\<leftarrow>?cs. v)"
    by (simp add: total_def case_prod_unfold)
  also have "\<dots> = (\<Sum>k\<in>fst ` set ?cs. the (map_of ?cs k))"
    by (rule sum_list_alist) (simp add: count_labels_distinct)
  also have "\<dots> = (\<Sum>l\<in>set ls. count_list ls l)"
    unfolding keys_count_labels by (intro sum.cong) (simp_all add: map_of_count_labels)
  also have "\<dots> = length ls"
    by (simp add: sum_count_set)
  finally show ?thesis .
qed

lemma count_labels_nonempty: "ls \<noteq> [] \<Longrightarrow> count_labels [] ls \<noteq> []"
  using keys_count_labels [of ls] by auto

lemma concat_reset_nonempty: "rs \<noteq> [] \<Longrightarrow> concat_reset cols rs = DataFrame cols rs"
  by (cases rs) (simp_all add: concat_reset_def)

lemma splits_DataFrame:
  assumes "splits (DataFrame cols rs) q"
  obtains ts fs where "partition_df (DataFrame cols rs) (q_col q) (q_value q)
                         = Inr (DataFrame cols ts, DataFrame cols fs)"
    and "ts \<noteq> []" and "fs \<noteq> []" and "length ts + length fs = length rs"
    and "ts = filter (match q) rs" and "fs = filter (\<lambda>r. \<not> match q r) rs"
proof -
  from assms obtain t f where p: "partition_df (DataFrame cols rs) (q_col q) (q_value q) = Inr (t, f)"
    and ne: "len t \<noteq> 0" "len f \<noteq> 0"
    by (auto simp: splits_def split: sum.splits)
  let ?ts = "filter (match q) rs" and ?fs = "filter (\<lambda>r. \<not> match q r) rs"
  from p obtain cols' rs' where "DataFrame cols rs = DataFrame cols' rs'"
    and "t = concat_reset cols' (filter (match (Question (q_col q) (q_value q))) rs')"
    and "f = concat_reset cols' (filter (\<lambda>r. \<not> match (Question (q_col q) (q_value q)) r) rs')"
    by (rule partition_df_Inr)
  then have t: "t = concat_reset cols ?ts" and f: "f = concat_reset cols ?fs"
    by simp_all
  from ne have "?ts \<noteq> []" "?fs \<noteq> []"
    by (auto simp: t f)
  moreover from this have "t = DataFrame cols ?ts" "f = DataFrame cols ?fs"
    by (simp_all add: t f concat_reset_nonempty)
  moreover have "length ?ts + length ?fs = length rs"
    by (rule sum_length_filter_compl)
  ultimately show ?thesis
    using p that by blast
qed

lemma build_tree_DataFrame:
  assumes "''Model'' \<in> set cols"
  shows "\<exists>tree. build_tree pw (DataFrame cols rs) = Inr tree
           \<and> sum_list (map total (leaves tree)) = length rs
           \<and> (rs \<noteq> [] \<longrightarrow> [] \<notin> set (leaves tree))"
proof (induction "length rs" arbitrary: rs rule: less_induct)
  case less
  obtain gain question where b: "best_split pw cols rs = (gain, question)"
    by (cases "best_split pw cols rs")
  then have fbs: "find_best_split pw (DataFrame cols rs) = Inr (gain, question)"
    using assms by (simp add: find_best_split_DataFrame)
  show ?case
  proof (cases "gain = 0")
    case True
    then have "build_tree pw (DataFrame cols rs) = Inr (Leaf (count_labels [] (labels rs)))"
      using assms by (simp add: build_tree.simps [of pw "DataFrame cols rs"] fbs class_counts_DataFrame)
    then show ?thesis
      using count_labels_nonempty [of "labels rs"]
      by (auto simp: total_count_labels labels_def)
  next
    case False
    with best_split_None [of pw cols rs] b obtain q where q: "question = Some q"
      by (cases question) auto
    from fbs q have "splits (DataFrame cols rs) q"
      by (auto intro: find_best_split_splits)
    then obtain ts fs where p: "partition_df (DataFrame cols rs) (q_col q) (q_value q)
                         = Inr (DataFrame cols ts, DataFrame cols fs)"
      and ne: "ts \<noteq> []" "fs \<noteq> []" and len: "length ts + length fs = length rs"
      by (rule splits_DataFrame)
    from ne len have "length ts < length rs" "length fs < length rs"
      by (cases ts; cases fs; simp)+
    with less obtain tt ft where
      tt: "build_tree pw (DataFrame cols ts) = Inr tt" "sum_list (map total (leaves tt)) = length ts"
          "[] \<notin> set (leaves tt)"
      and ft: "build_tree pw (DataFrame cols fs) = Inr ft" "sum_list (map total (leaves ft)) = length fs"
          "[] \<notin> set (leaves ft)"
      using ne by metis
    have "build_tree pw (DataFrame cols rs) = Inr (Decision_Node q tt ft)"
      using False by (simp add: build_tree.simps [of pw "DataFrame cols rs"] fbs q p tt ft
          del: partition_df.simps)
    then show ?thesis
      using tt ft len by simp
  qed
qed

section \<open>Termination of the tree builder\<close>

text \<open>
  Claim C4: \<^verbatim>\<open>build_tree\<close> terminates on every non-empty dataset. The function
  \<open>build_tree\<close> above is total by its termination proof, whose measure is the number
  of rows; here it is shown to return a tree, not an error, and the step of the argument
  is stated: a returned gain greater than 0 comes with a question, and partitioning by
  it gives two DataFrames that have rows, each with fewer rows than the dataset. The
  proof does not look at the value of any gain.
\<close>

theorem build_tree_terminates:
  assumes "''Model'' \<in> set cols" and "rs \<noteq> []"
  shows "(\<exists>tree. build_tree pw (DataFrame cols rs) = Inr tree)
       \<and> (\<forall>gain question.
            find_best_split pw (DataFrame cols rs) = Inr (gain, question) \<and> gain > 0 \<longrightarrow>
            (\<exists>q ts fs. question = Some q
               \<and> partition_df (DataFrame cols rs) (q_col q) (q_value q)
                   = Inr (DataFrame cols ts, DataFrame cols fs)
               \<and> ts \<noteq> [] \<and> fs \<noteq> []
               \<and> length ts < length rs \<and> length fs < length rs))"
proof (intro conjI allI impI)
  show "\<exists>tree. build_tree pw (DataFrame cols rs) = Inr tree"
    using build_tree_DataFrame [OF assms(1), where rs = rs and pw = pw] by blast
next
  fix gain question
  assume a: "find_best_split pw (DataFrame cols rs) = Inr (gain, question) \<and> gain > 0"
  then have b: "best_split pw cols rs = (gain, question)"
    using assms(1) by (simp add: find_best_split_DataFrame)
  with a best_split_None [of pw cols rs] obtain q where q: "question = Some q"
    by (cases question) auto
  with a have "splits (DataFrame cols rs) q"
    by (auto intro: find_best_split_splits)
  then obtain ts fs where "partition_df (DataFrame cols rs) (q_col q) (q_value q)
                         = Inr (DataFrame cols ts, DataFrame cols fs)"
    and ne: "ts \<noteq> []" "fs \<noteq> []" and len: "length ts + length fs = length rs"
    by (rule splits_DataFrame)
  moreover from ne len have "length ts < length rs" "length fs < length rs"
    by (cases ts; cases fs; simp)+
  ultimately show "\<exists>q ts fs. question = Some q
               \<and> partition_df (DataFrame cols rs) (q_col q) (q_value q)
                   = Inr (DataFrame cols ts, DataFrame cols fs)
               \<and> ts \<noteq> [] \<and> fs \<noteq> []
               \<and> length ts < length rs \<and> length fs < length rs"
    using q by blast
qed

theorem build_tree_terminates_witness:
  "(\<exists>tree. build_tree pow_nearest shape_data = Inr tree)
   \<and> (\<exists>q ts fs. find_best_split pow_nearest shape_data = Inr (1 / 2, Some q)
         \<and> partition_df shape_data (q_col q) (q_value q)
             = Inr (DataFrame [''Shape'', ''Model''] ts, DataFrame [''Shape'', ''Model''] fs)
         \<and> ts \<noteq> [] \<and> fs \<noteq> [] \<and> length ts < len shape_data \<and> length fs < len shape_data)"
proof -
  let ?rs = "[shape_row ''V'' ''A'', shape_row ''V'' ''A'', shape_row ''U'' ''B'', shape_row ''U'' ''B'']"
  have m: "''Model'' \<in> set [''Shape'', ''Model'']" by simp
  have ne: "?rs \<noteq> []" by simp
  have d: "shape_data = DataFrame [''Shape'', ''Model''] ?rs"
    by (simp add: shape_data_def)
  have g: "find_best_split pow_nearest (DataFrame [''Shape'', ''Model''] ?rs)
             = Inr (1 / 2, Some (Question ''Shape'' (Str ''U''))) \<and> (1 / 2 :: rat) > 0"
    using shape_data_split [of pow_nearest] by (simp add: d)
  from build_tree_terminates [OF m ne, where pw = pow_nearest] g show ?thesis
    unfolding d len.simps by blast
qed

section \<open>The leaves account for every row\<close>

text \<open>
  Claim C10: in the tree that \<^verbatim>\<open>build_tree\<close> returns for a non-empty dataset, the
  predictions of every leaf are non-empty, and the counts of all leaves add up to the
  number of rows of the dataset.
\<close>

theorem build_tree_leaves:
  assumes "''Model'' \<in> set cols" and "rs \<noteq> []"
  shows "\<exists>tree. build_tree pw (DataFrame cols rs) = Inr tree
           \<and> (\<forall>predictions\<in>set (leaves tree). predictions \<noteq> [])
           \<and> sum_list (map total (leaves tree)) = length rs"
  using build_tree_DataFrame [OF assms(1), where rs = rs and pw = pw] assms(2) by auto

theorem build_tree_leaves_witness:
  "\<exists>tree. build_tree pow_nearest shape_data = Inr tree
     \<and> [] \<notin> set (leaves tree) \<and> sum_list (map total (leaves tree)) = 4"
proof -
  let ?rs = "[shape_row ''V'' ''A'', shape_row ''V'' ''A'', shape_row ''U'' ''B'', shape_row ''U'' ''B'']"
  have m: "''Model'' \<in> set [''Shape'', ''Model'']" by simp
  have ne: "?rs \<noteq> []" by simp
  have d: "shape_data = DataFrame [''Shape'', ''Model''] ?rs"
    by (simp add: shape_data_def)
  from build_tree_leaves [OF m ne, where pw = pow_nearest] show ?thesis
    unfolding d by auto
qed

section \<open>A dataset with one label\<close>

lemma labels_single:
  "\<forall>r\<in>set rs. r ''Model'' = l \<Longrightarrow> labels rs = replicate (length rs) l"
  by (induction rs) (simp_all add: labels_def)

lemma remdups_replicate_Suc: "remdups (replicate (Suc n) l) = [l]"
  by (induction n) simp_all

lemma unique_replicate:
  assumes "n \<noteq> 0"
  shows "unique (replicate n l) = [l]"
proof -
  from assms obtain m where n: "n = Suc m"
    by (cases n) auto
  have "rev (replicate n l) = replicate n l"
    by (rule rev_replicate)
  then have "unique (replicate n l) = rev (remdups (replicate n l))"
    by (simp only: unique_def)
  also have "\<dots> = [l]"
    unfolding n remdups_replicate_Suc by simp
  finally show ?thesis .
qed

lemma count_list_replicate_same: "count_list (replicate n l) l = n"
  by (induction n) simp_all

lemma impurity_single:
  assumes "rs \<noteq> []" and "\<forall>r\<in>set rs. r ''Model'' = l"
  shows "impurity pw rs = 0"
proof -
  have ls: "labels rs = replicate (length rs) l"
    using assms(2) by (rule labels_single)
  from assms(1) have "unique (labels rs) = [l]"
    by (simp add: ls unique_replicate)
  then show ?thesis
    using assms(1) by (simp add: impurity_def) (simp add: ls count_list_replicate_same)
qed

lemma scored_single:
  assumes "\<forall>r\<in>set rs. r ''Model'' = l" and "(g, q) \<in> set (scored pw cols rs)"
  shows "g = 0"
proof -
  from assms(2) obtain cv where sc: "(g, q) \<in> set (score pw rs cv)"
    by (auto simp: scored_def)
  let ?q = "Question (fst cv) (snd cv)"
  let ?t = "filter (match ?q) rs" and ?f = "filter (\<lambda>r. \<not> match ?q r) rs"
  from sc have ne: "?t \<noteq> []" "?f \<noteq> []" and g: "g = gain_of pw ?t ?f (impurity pw rs)"
    by (auto simp: score_def Let_def split: if_splits)
  from ne have "rs \<noteq> []" by auto
  then have "impurity pw rs = 0" using assms(1) by (rule impurity_single)
  moreover have "impurity pw ?t = 0" "impurity pw ?f = 0"
    using ne assms(1) by (auto intro!: impurity_single [where l = l])
  ultimately show ?thesis
    by (simp add: g gain_of_def)
qed

lemma foldl_track_zero:
  "fst best = 0 \<Longrightarrow> \<forall>(g, q)\<in>set xs. g = 0 \<Longrightarrow> fst (foldl track best xs) = 0"
proof (induction xs arbitrary: best)
  case Nil
  then show ?case by simp
next
  case (Cons x xs)
  obtain bg bq g q where "best = (bg, bq)" "x = (g, q)"
    by (cases best, cases x) auto
  with Cons.prems show ?case
    using Cons.IH [of "track best x"] by auto
qed

lemma count_labels_replicate:
  "count_labels [(l, k)] (replicate n l) = [(l, k + n)]"
  by (induction n arbitrary: k) simp_all

lemma count_labels_single:
  "n \<noteq> 0 \<Longrightarrow> count_labels [] (replicate n l) = [(l, n)]"
  by (cases n) (simp_all add: count_labels_replicate)

text \<open>
  Claim C9: on a non-empty dataset all of whose rows have the label \<open>l\<close>, whatever the
  other columns hold, \<^verbatim>\<open>build_tree\<close> returns a single leaf whose predictions have
  the one entry \<open>l\<close>, counted as often as the dataset has rows. (Every impurity is
  \<open>1 - 1\<^sup>2 = 0\<close>, so every scored gain is \<open>0 - p * 0 - (1 - p) * 0 = 0\<close>, and no
  rounding changes these values.)
\<close>

theorem build_tree_single_label:
  assumes "''Model'' \<in> set cols" and "rs \<noteq> []" and "\<forall>r\<in>set rs. r ''Model'' = l"
  shows "build_tree pw (DataFrame cols rs) = Inr (Leaf [(l, length rs)])"
proof -
  have "fst (best_split pw cols rs) = 0"
    unfolding best_split_def using assms(3)
    by (intro foldl_track_zero) (auto dest: scored_single)
  then obtain question where "find_best_split pw (DataFrame cols rs) = Inr (0, question)"
    using assms(1) by (cases "best_split pw cols rs") (simp add: find_best_split_DataFrame)
  then have "build_tree pw (DataFrame cols rs) = Inr (Leaf (count_labels [] (labels rs)))"
    using assms(1) by (simp add: build_tree.simps [of pw "DataFrame cols rs"] class_counts_DataFrame)
  then show ?thesis
    using assms(2,3) by (simp add: labels_single count_labels_single)
qed

theorem build_tree_single_label_witness:
  "build_tree pow_nearest single_data = Inr (Leaf [(Str ''A'', 3)])"
proof -
  let ?rs = "[shape_row ''V'' ''A'', shape_row ''U'' ''A'', shape_row ''V'' ''A'']"
  have m: "''Model'' \<in> set [''Shape'', ''Model'']" by simp
  have ne: "?rs \<noteq> []" by simp
  have l: "\<forall>r\<in>set ?rs. r ''Model'' = Str ''A''"
    by simp
  from build_tree_single_label [OF m ne l, where pw = pow_nearest] show ?thesis
    by (simp add: single_data_def)
qed

section \<open>Partition is a stable split\<close>

lemma interleave_filter:
  "interleave (map P rs) (filter P rs) (filter (\<lambda>r. \<not> P r) rs) = rs"
  by (induction rs) simp_all

text \<open>
  Claim C6: for every DataFrame and every value, partitioning by a column of the frame
  returns two subsets whose row counts add up to the row count of the frame; each holds
  its rows in their original relative order (the rows equal to the value, and the rows
  different from it, each a subsequence of the original rows); and interleaving the two
  by the original positions gives the original rows back. The frame is an immutable
  value of the model, as it is in the source, which only reads it (\<^verbatim>\<open>df[col]\<close>,
  \<^verbatim>\<open>df.loc[[row]]\<close>) and builds the two sides with \<^verbatim>\<open>pd.concat\<close>. A column name
  that the frame does not have raises KeyError in \<^verbatim>\<open>df[col]\<close>.
\<close>

theorem partition_df_stable:
  assumes "c \<in> set cols"
  shows "\<exists>true_rows false_rows.
           partition_df (DataFrame cols rs) c v = Inr (true_rows, false_rows)
         \<and> len true_rows + len false_rows = length rs
         \<and> rows_of true_rows = filter (\<lambda>r. r c = v) rs
         \<and> rows_of false_rows = filter (\<lambda>r. r c \<noteq> v) rs
         \<and> subseq (rows_of true_rows) rs \<and> subseq (rows_of false_rows) rs
         \<and> interleave (map (\<lambda>r. r c = v) rs) (rows_of true_rows) (rows_of false_rows) = rs"
proof -
  let ?P = "\<lambda>r. r c = v"
  have m: "match (Question c v) = ?P"
    by (simp add: match_def fun_eq_iff)
  have "partition_df (DataFrame cols rs) c v
          = Inr (concat_reset cols (filter ?P rs), concat_reset cols (filter (\<lambda>r. \<not> ?P r) rs))"
    using assms by (simp add: partition_df_DataFrame m del: partition_df.simps)
  moreover have "length (filter ?P rs) + length (filter (\<lambda>r. \<not> ?P r) rs) = length rs"
    by (rule sum_length_filter_compl)
  moreover have "interleave (map ?P rs) (filter ?P rs) (filter (\<lambda>r. \<not> ?P r) rs) = rs"
    by (rule interleave_filter)
  ultimately show ?thesis
    by simp
qed

theorem partition_df_stable_witness:
  "\<exists>true_rows false_rows.
      partition_df shape_data ''Shape'' (Str ''U'') = Inr (true_rows, false_rows)
    \<and> len true_rows + len false_rows = 4
    \<and> rows_of true_rows = [shape_row ''U'' ''B'', shape_row ''U'' ''B'']
    \<and> rows_of false_rows = [shape_row ''V'' ''A'', shape_row ''V'' ''A'']"
proof -
  have c: "''Shape'' \<in> set [''Shape'', ''Model'']" by simp
  let ?rs = "[shape_row ''V'' ''A'', shape_row ''V'' ''A'', shape_row ''U'' ''B'', shape_row ''U'' ''B'']"
  from partition_df_stable [OF c, of ?rs "Str ''U''"]
  obtain t f where p: "partition_df (DataFrame [''Shape'', ''Model''] ?rs) ''Shape'' (Str ''U'') = Inr (t, f)"
    and n: "len t + len f = length ?rs"
    and t: "rows_of t = filter (\<lambda>r. r ''Shape'' = Str ''U'') ?rs"
    and f: "rows_of f = filter (\<lambda>r. r ''Shape'' \<noteq> Str ''U'') ?rs"
    by blast
  have s: "shape_row ''V'' m ''Shape'' = Str ''V''" "shape_row ''U'' m ''Shape'' = Str ''U''" for m
    by (simp_all add: shape_row_def)
  from t have "rows_of t = [shape_row ''U'' ''B'', shape_row ''U'' ''B'']"
    by (simp add: s)
  moreover from f have "rows_of f = [shape_row ''V'' ''A'', shape_row ''V'' ''A'']"
    by (simp add: s)
  moreover from n have "len t + len f = 4"
    by simp
  ultimately show ?thesis
    using p unfolding shape_data_def by blast
qed

section \<open>The search: candidates, scoring, tie-break\<close>

declare partition_df.simps [simp del]

lemma set_candidates:
  "set (candidates cols rs) = {(c, v). c \<in> set cols \<and> c \<noteq> ''Model'' \<and> (\<exists>r\<in>set rs. r c = v)}"
  by (auto simp: candidates_def)

lemma distinct_candidates: "distinct cols \<Longrightarrow> distinct (candidates cols rs)"
proof (induction cols)
  case Nil
  show ?case by (simp add: candidates_def)
next
  case (Cons c cs)
  have "candidates (c # cs) rs =
      (if c = ''Model'' then [] else map (Pair c) (unique (map (\<lambda>r. r c) rs))) @ candidates cs rs"
    by (simp add: candidates_def)
  moreover have "distinct (map (Pair c) (unique (map (\<lambda>r. r c) rs)))"
    by (simp add: distinct_map inj_on_def)
  moreover have "fst p \<in> set cs" if "p \<in> set (candidates cs rs)" for p
    using that by (auto simp: set_candidates)
  ultimately show ?case
    using Cons by auto
qed

lemma score_iff:
  assumes "''Model'' \<in> set cols" and "c \<in> set cols"
  shows "(g, q) \<in> set (score pw rs (c, v)) \<longleftrightarrow>
         (\<exists>t f cur. q = Question c v
            \<and> partition_df (DataFrame cols rs) c v = Inr (t, f) \<and> len t \<noteq> 0 \<and> len f \<noteq> 0
            \<and> gini pw (DataFrame cols rs) = Inr cur \<and> info_gain pw t f cur = Inr g)"
proof -
  let ?t = "filter (match (Question c v)) rs"
  let ?f = "filter (\<lambda>r. \<not> match (Question c v) r) rs"
  have p: "partition_df (DataFrame cols rs) c v = Inr (concat_reset cols ?t, concat_reset cols ?f)"
    using assms(2) by (rule partition_df_DataFrame)
  have g: "gini pw (DataFrame cols rs) = Inr (impurity pw rs)"
    using assms(1) by (rule gini_DataFrame)
  show ?thesis
  proof (cases "?t = [] \<or> ?f = []")
    case True
    then have "score pw rs (c, v) = []"
      by (auto simp: score_def)
    with True show ?thesis
      by (auto simp: p)
  next
    case False
    then have "score pw rs (c, v) = [(gain_of pw ?t ?f (impurity pw rs), Question c v)]"
      by (simp add: score_def Let_def)
    moreover from False have "info_gain pw (concat_reset cols ?t) (concat_reset cols ?f) (impurity pw rs)
        = Inr (gain_of pw ?t ?f (impurity pw rs))"
      using assms(1) by (simp add: info_gain_concat_reset)
    ultimately show ?thesis
      using False by (auto simp: p g)
  qed
qed

lemma scored_iff:
  assumes "''Model'' \<in> set cols"
  shows "(g, q) \<in> set (scored pw cols rs) \<longleftrightarrow>
         (\<exists>c v t f cur. (c, v) \<in> set (candidates cols rs) \<and> q = Question c v
            \<and> partition_df (DataFrame cols rs) c v = Inr (t, f) \<and> len t \<noteq> 0 \<and> len f \<noteq> 0
            \<and> gini pw (DataFrame cols rs) = Inr cur \<and> info_gain pw t f cur = Inr g)"
    (is "?L \<longleftrightarrow> ?R")
proof
  assume ?L
  then obtain c v where cv: "(c, v) \<in> set (candidates cols rs)"
    and sc: "(g, q) \<in> set (score pw rs (c, v))"
    by (auto simp: scored_def)
  from cv have "c \<in> set cols"
    by (simp add: set_candidates)
  from sc [unfolded score_iff [OF assms this]] cv show ?R
    by blast
next
  assume ?R
  then obtain c v t f cur where cv: "(c, v) \<in> set (candidates cols rs)"
    and r: "q = Question c v \<and> partition_df (DataFrame cols rs) c v = Inr (t, f)
            \<and> len t \<noteq> 0 \<and> len f \<noteq> 0
            \<and> gini pw (DataFrame cols rs) = Inr cur \<and> info_gain pw t f cur = Inr g"
    by blast
  from cv have "c \<in> set cols"
    by (simp add: set_candidates)
  from score_iff [OF assms this, where g = g and q = q and rs = rs and v = v and pw = pw] r have "(g, q) \<in> set (score pw rs (c, v))"
    by blast
  with cv show ?L
    unfolding scored_def by (auto intro!: bexI [of _ "(c, v)"])
qed

lemma tie_data_scored:
  "scored pw [''Shape'', ''Model''] [shape_row ''V'' ''A'', shape_row ''V'' ''B'', shape_row ''U'' ''B''] =
   [(gain_of pw [shape_row ''V'' ''A'', shape_row ''V'' ''B''] [shape_row ''U'' ''B'']
       (impurity pw [shape_row ''V'' ''A'', shape_row ''V'' ''B'', shape_row ''U'' ''B'']),
     Question ''Shape'' (Str ''V'')),
    (gain_of pw [shape_row ''U'' ''B''] [shape_row ''V'' ''A'', shape_row ''V'' ''B'']
       (impurity pw [shape_row ''V'' ''A'', shape_row ''V'' ''B'', shape_row ''U'' ''B'']),
     Question ''Shape'' (Str ''U''))]"
  by (simp add: scored_def candidates_def score_def Let_def unique_def match_def)

lemma tie_data_impurity:
  "impurity pow_nearest [shape_row ''V'' ''A'', shape_row ''V'' ''B'', shape_row ''U'' ''B'']
     = 2001599834386887 / 4503599627370496"
  by (simp add: impurity_def labels_def unique_def float_ops fl_values)

lemma tie_data_impurity_U: "impurity pw [shape_row ''U'' ''B''] = 0"
  by (simp add: impurity_def labels_def unique_def float_ops)

lemma tie_data_gains:
  "scored pow_nearest [''Shape'', ''Model'']
     [shape_row ''V'' ''A'', shape_row ''V'' ''B'', shape_row ''U'' ''B'']
   = [(2001599834386887 / 18014398509481984, Question ''Shape'' (Str ''V'')),
      (1000799917193443 / 9007199254740992, Question ''Shape'' (Str ''U''))]"
  by (simp add: tie_data_scored gain_of_def tie_data_impurity tie_data_impurity_U
      mixed_data_impurity_side float_ops fl_values)

text \<open>
  Claim C5: \<^verbatim>\<open>find_best_split\<close> enumerates every column but the label column and every
  distinct value in it (\<open>candidates\<close>: each pair once when the column names are
  distinct); a candidate is scored exactly when partitioning by it leaves a row on each
  side, and then with \<^verbatim>\<open>info_gain\<close> of the two sides against the impurity of the
  dataset (\<open>scored\<close>, in the order of enumeration); the tracked pair is replaced exactly
  when a scored gain is greater than or equal to the tracked gain (\<open>track\<close>, folded from
  \<open>(0, None)\<close>); hence a returned question is the last scored candidate whose gain is
  the largest: no earlier gain is larger, every later gain is smaller. The gains
  compared are the doubles that \<^verbatim>\<open>info_gain\<close> returns; the proof uses their order only,
  not their values. (On \<open>tie_data\<close> both questions have the exact gain \<open>1/9\<close>; the
  doubles are 0.1111111111111111 for \<^verbatim>\<open>Shape == V\<close> and 0.11111111111111105 for
  \<^verbatim>\<open>Shape == U\<close>, and the first, larger one is returned.)
\<close>

theorem find_best_split_search:
  assumes "''Model'' \<in> set cols"
  shows "set (candidates cols rs) = {(c, v). c \<in> set cols \<and> c \<noteq> ''Model'' \<and> (\<exists>r\<in>set rs. r c = v)}
       \<and> (distinct cols \<longrightarrow> distinct (candidates cols rs))
       \<and> (\<forall>g q. (g, q) \<in> set (scored pw cols rs) \<longleftrightarrow>
             (\<exists>c v t f cur. (c, v) \<in> set (candidates cols rs) \<and> q = Question c v
                \<and> partition_df (DataFrame cols rs) c v = Inr (t, f) \<and> len t \<noteq> 0 \<and> len f \<noteq> 0
                \<and> gini pw (DataFrame cols rs) = Inr cur \<and> info_gain pw t f cur = Inr g))
       \<and> find_best_split pw (DataFrame cols rs) = Inr (foldl track (0, None) (scored pw cols rs))
       \<and> (\<forall>gain q. find_best_split pw (DataFrame cols rs) = Inr (gain, Some q) \<longrightarrow>
             (\<exists>before after. scored pw cols rs = before @ (gain, q) # after
                \<and> (\<forall>(g, q')\<in>set before. g \<le> gain) \<and> (\<forall>(g, q')\<in>set after. g < gain)))"
proof (intro conjI allI impI)
  show "find_best_split pw (DataFrame cols rs) = Inr (foldl track (0, None) (scored pw cols rs))"
    using assms by (simp add: find_best_split_DataFrame best_split_def)
next
  fix gain q
  assume "find_best_split pw (DataFrame cols rs) = Inr (gain, Some q)"
  then have f: "foldl track (0, None) (scored pw cols rs) = (gain, Some q)"
    using assms by (simp add: find_best_split_DataFrame best_split_def)
  then obtain before after where s: "scored pw cols rs = before @ (gain, q) # after"
    and a: "\<forall>(g, q')\<in>set after. g < gain"
    using foldl_track_last by fastforce
  have "g \<le> gain" if "(g, q') \<in> set before" for g q'
  proof -
    from that have "(g, q') \<in> set (scored pw cols rs)" by (simp add: s)
    from foldl_track_upper [OF this, of "(0, None)"] show ?thesis
      by (simp add: f)
  qed
  with s a show "\<exists>before after. scored pw cols rs = before @ (gain, q) # after
                \<and> (\<forall>(g, q')\<in>set before. g \<le> gain) \<and> (\<forall>(g, q')\<in>set after. g < gain)"
    by blast
qed (simp_all add: set_candidates distinct_candidates scored_iff [OF assms])

theorem find_best_split_search_witness:
  "find_best_split pow_nearest tie_data
     = Inr (2001599834386887 / 18014398509481984, Some (Question ''Shape'' (Str ''V'')))
   \<and> distinct (candidates [''Shape'', ''Model''] (rows_of tie_data))
   \<and> (\<exists>before after.
         scored pow_nearest [''Shape'', ''Model''] (rows_of tie_data)
           = before @ (2001599834386887 / 18014398509481984, Question ''Shape'' (Str ''V'')) # after
       \<and> (\<forall>(g, q')\<in>set before. g \<le> 2001599834386887 / 18014398509481984)
       \<and> (\<forall>(g, q')\<in>set after. g < 2001599834386887 / 18014398509481984))"
proof -
  let ?rs = "[shape_row ''V'' ''A'', shape_row ''V'' ''B'', shape_row ''U'' ''B'']"
  let ?g = "2001599834386887 / 18014398509481984 :: rat"
  have m: "''Model'' \<in> set [''Shape'', ''Model'']" by simp
  have dc: "distinct [''Shape'', ''Model'']" by simp
  have d: "tie_data = DataFrame [''Shape'', ''Model''] ?rs"
    by (simp add: tie_data_def)
  have r: "rows_of tie_data = ?rs"
    by (simp add: d)
  note t = find_best_split_search [OF m, where rs = ?rs and pw = pow_nearest]
  have "find_best_split pow_nearest tie_data
      = Inr (foldl track (0, None) (scored pow_nearest [''Shape'', ''Model''] ?rs))"
    unfolding d by (rule t [THEN conjunct2, THEN conjunct2, THEN conjunct2, THEN conjunct1])
  then have f: "find_best_split pow_nearest tie_data = Inr (?g, Some (Question ''Shape'' (Str ''V'')))"
    by (simp add: tie_data_gains)
  moreover have "distinct (candidates [''Shape'', ''Model''] ?rs)"
    using t [THEN conjunct2, THEN conjunct1] dc by (rule mp)
  moreover have "\<exists>before after.
         scored pow_nearest [''Shape'', ''Model''] ?rs = before @ (?g, Question ''Shape'' (Str ''V'')) # after
       \<and> (\<forall>(g, q')\<in>set before. g \<le> ?g) \<and> (\<forall>(g, q')\<in>set after. g < ?g)"
    using t [THEN conjunct2, THEN conjunct2, THEN conjunct2, THEN conjunct2, rule_format,
        of ?g "Question ''Shape'' (Str ''V'')"] f
    unfolding d by blast
  ultimately show ?thesis
    unfolding r by blast
qed

section \<open>The gain in exact arithmetic\<close>

text \<open>
  With \<open>a\<close> and \<open>b\<close> the numbers of rows of one label on the two sides, and \<open>n\<close> and
  \<open>m\<close> the sizes of the sides, the label contributes
  \<open>(a * m - b * n)\<^sup>2 / (n * m * (n + m)\<^sup>2)\<close> to the exact gain of a split against
  the exact impurity of the whole: the exact gain is a sum of squares. So it is never
  negative, and it is 0 when every label has the same share on both sides.
\<close>

lemma gain_term:
  fixes a b n m :: rat
  assumes "0 < n" and "0 < m"
  shows "(n / (n + m)) * (a / n)\<^sup>2 + (1 - n / (n + m)) * (b / m)\<^sup>2 - ((a + b) / (n + m))\<^sup>2
         = (a * m - b * n)\<^sup>2 / (n * m * (n + m)\<^sup>2)"
proof -
  define N where "N = n + m"
  have nz: "N \<noteq> 0" "n \<noteq> 0" "m \<noteq> 0" using assms by (simp_all add: N_def)
  have 1: "(n / N) * (a / n)\<^sup>2 = (a * a * m * N) / (n * m * N\<^sup>2)"
    using nz by (simp add: field_simps power2_eq_square)
  have c: "1 - n / N = m / N"
    using nz by (simp add: field_simps N_def)
  have 2: "(1 - n / N) * (b / m)\<^sup>2 = (b * b * n * N) / (n * m * N\<^sup>2)"
    unfolding c using nz by (simp add: field_simps power2_eq_square)
  have 3: "((a + b) / N)\<^sup>2 = ((a + b) * (a + b) * n * m) / (n * m * N\<^sup>2)"
    using nz by (simp add: field_simps power2_eq_square)
  have 4: "a * a * m * N + b * b * n * N - (a + b) * (a + b) * n * m = (a * m - b * n)\<^sup>2"
    by (simp add: N_def power2_eq_square algebra_simps)
  have "(n / N) * (a / n)\<^sup>2 + (1 - n / N) * (b / m)\<^sup>2 - ((a + b) / N)\<^sup>2
         = (a * a * m * N) / (n * m * N\<^sup>2) + (b * b * n * N) / (n * m * N\<^sup>2)
           - ((a + b) * (a + b) * n * m) / (n * m * N\<^sup>2)"
    by (simp only: 1 2 3)
  also have "\<dots> = (a * a * m * N + b * b * n * N - (a + b) * (a + b) * n * m) / (n * m * N\<^sup>2)"
    by (simp only: add_divide_distrib diff_divide_distrib)
  also have "\<dots> = (a * m - b * n)\<^sup>2 / (n * m * N\<^sup>2)"
    by (simp only: 4)
  finally show ?thesis
    unfolding N_def .
qed

lemma impurity_exact_over:
  assumes "finite L" and "set (labels rs) \<subseteq> L"
  shows "impurity_exact rs = 1 - (\<Sum>l\<in>L. (of_nat (count_list (labels rs) l) / of_nat (length rs))\<^sup>2)"
proof -
  have "(\<Sum>l\<in>set (labels rs). (of_nat (count_list (labels rs) l) / (of_nat (length rs) :: rat))\<^sup>2)
      = (\<Sum>l\<in>L. (of_nat (count_list (labels rs) l) / of_nat (length rs))\<^sup>2)"
    using assms by (intro sum.mono_neutral_left) (auto simp: count_notin)
  then show ?thesis
    by (simp add: impurity_exact_def)
qed

lemma gain_exact_sum:
  assumes "ls \<noteq> []" and "rs \<noteq> []"
  shows "gain_exact ls rs
         = (\<Sum>l\<in>set (labels (ls @ rs)).
              (of_nat (count_list (labels ls) l) * of_nat (length rs)
                 - of_nat (count_list (labels rs) l) * of_nat (length ls))\<^sup>2
              / (of_nat (length ls) * of_nat (length rs)
                   * (of_nat (length ls) + of_nat (length rs))\<^sup>2))"
proof -
  let ?L = "set (labels (ls @ rs))"
  let ?a = "\<lambda>l. of_nat (count_list (labels ls) l) :: rat"
  let ?b = "\<lambda>l. of_nat (count_list (labels rs) l) :: rat"
  let ?n = "of_nat (length ls) :: rat" and ?m = "of_nat (length rs) :: rat"
  let ?p = "?n / (?n + ?m)"
  have n: "0 < ?n" and m: "0 < ?m" using assms by simp_all
  have app: "labels (ls @ rs) = labels ls @ labels rs"
    by (simp add: labels_def)
  have A: "impurity_exact ls = 1 - (\<Sum>l\<in>?L. (?a l / ?n)\<^sup>2)"
    by (rule impurity_exact_over) (simp_all add: app)
  have B: "impurity_exact rs = 1 - (\<Sum>l\<in>?L. (?b l / ?m)\<^sup>2)"
    by (rule impurity_exact_over) (simp_all add: app)
  have C: "impurity_exact (ls @ rs) = 1 - (\<Sum>l\<in>?L. ((?a l + ?b l) / (?n + ?m))\<^sup>2)"
    by (simp add: impurity_exact_def app)
  have "gain_exact ls rs
      = ?p * (\<Sum>l\<in>?L. (?a l / ?n)\<^sup>2) + (1 - ?p) * (\<Sum>l\<in>?L. (?b l / ?m)\<^sup>2)
        - (\<Sum>l\<in>?L. ((?a l + ?b l) / (?n + ?m))\<^sup>2)"
    unfolding gain_exact_def A B C by (simp add: algebra_simps)
  also have "\<dots> = (\<Sum>l\<in>?L. ?p * (?a l / ?n)\<^sup>2 + (1 - ?p) * (?b l / ?m)\<^sup>2
                        - ((?a l + ?b l) / (?n + ?m))\<^sup>2)"
    by (simp only: sum_distrib_left sum.distrib sum_subtractf)
  also have "\<dots> = (\<Sum>l\<in>?L. (?a l * ?m - ?b l * ?n)\<^sup>2 / (?n * ?m * (?n + ?m)\<^sup>2))"
    by (intro sum.cong refl gain_term n m)
  finally show ?thesis .
qed

lemma gain_exact_nonneg:
  assumes "ls \<noteq> []" and "rs \<noteq> []"
  shows "0 \<le> gain_exact ls rs"
  unfolding gain_exact_sum [OF assms] by (intro sum_nonneg) simp

lemma gain_exact_same_distribution:
  assumes "ls \<noteq> []" and "rs \<noteq> []"
    and "\<forall>l. count_list (labels ls) l * length rs = count_list (labels rs) l * length ls"
  shows "gain_exact ls rs = 0"
proof -
  have "(of_nat (count_list (labels ls) l) :: rat) * of_nat (length rs)
        = of_nat (count_list (labels rs) l) * of_nat (length ls)" for l
    using assms(3) by (metis of_nat_mult)
  then show ?thesis
    unfolding gain_exact_sum [OF assms(1,2)] by simp
qed
section \<open>The Gini impurity\<close>

subsection \<open>The error of one rounding, relative to the value\<close>

lemma fl_error_rel:
  assumes "2 powi (- 1022) \<le> \<bar>x\<bar>"
  shows "\<bar>fl x - x\<bar> \<le> 2 powi (- 53) * \<bar>x\<bar>"
proof -
  have "(0::rat) < 2 powi (- 1022)" by simp
  then have "0 < \<bar>x\<bar>" using assms by (rule less_le_trans)
  then have x: "x \<noteq> 0" by simp
  from x assms have e: "- 1022 \<le> exponent x" by (rule exponent_ge)
  then have q: "quantum x = 2 powi (exponent x - 52)"
    by (simp add: quantum_def max_def)
  have "\<bar>fl x - x\<bar> \<le> quantum x / 2" by (rule fl_error)
  also have "\<dots> = 2 powi (- 53) * 2 powi (exponent x)"
    by (simp add: q power_int_diff power_int_minus field_simps)
  also have "\<dots> \<le> 2 powi (- 53) * \<bar>x\<bar>"
    using exponent_bounds(1) [OF x] by (intro mult_left_mono) simp_all
  finally show ?thesis .
qed

lemma pow_nearest_accurate: "pow_accurate pow_nearest"
  unfolding pow_accurate_def pow_nearest_def
proof (intro allI impI)
  fix x :: rat
  assume a: "2 powi (- 511) \<le> x \<and> x \<le> 1"
  then have "(2::rat) powi (- 511) * 2 powi (- 511) \<le> x * x"
    by (intro mult_mono) simp_all
  then have "2 powi (- 1022) \<le> \<bar>x * x\<bar>"
    by (simp add: power_int_add [symmetric])
  from fl_error_rel [OF this] have "\<bar>fl (x * x) - x * x\<bar> \<le> 2 powi (- 53) * (x * x)"
    by simp
  also have "\<dots> \<le> 2 powi (- 52) * (x * x)"
    by (intro mult_right_mono) simp_all
  finally show "\<bar>fl (x * x) - x * x\<bar> \<le> 2 powi (- 52) * (x * x)" .
qed

subsection \<open>The error of the loop\<close>

text \<open>
  For at most \<open>2\<^sup>2\<^sup>4\<close> rows: the rounded share of a label is within \<open>2\<^sup>-\<^sup>5\<^sup>3\<close> of the
  share, its square as the library returns it within \<open>2\<^sup>-\<^sup>5\<^sup>1\<close> of the squared share, and
  each subtraction of the loop adds an error of at most \<open>2\<^sup>-\<^sup>5\<^sup>2\<close>: after \<open>k\<close> labels the
  value is within \<open>k * 2\<^sup>-\<^sup>5\<^sup>0\<close> of the exact one.
\<close>

lemma share_error:
  assumes "1 \<le> c" and "c \<le> n" and "n \<le> 2 ^ 24"
  shows "0 \<le> fdiv (float_of_nat c) (float_of_nat n)"
    and "fdiv (float_of_nat c) (float_of_nat n) \<le> 1"
    and "\<bar>fdiv (float_of_nat c) (float_of_nat n) - of_nat c / of_nat n\<bar> \<le> 2 powi (- 53)"
    and "2 powi (- 511) \<le> fdiv (float_of_nat c) (float_of_nat n)"
proof -
  let ?x = "of_nat c / of_nat n :: rat"
  have n53: "n \<le> 2 ^ 53" "c \<le> 2 ^ 53"
    using assms by (simp_all add: order_trans [where y = "2 ^ 24"])
  then have p: "fdiv (float_of_nat c) (float_of_nat n) = fl ?x"
    by (simp add: fdiv_def float_of_nat_exact)
  have n0: "(0::rat) < of_nat n" using assms by simp
  have x0: "0 \<le> ?x" by simp
  have x1: "?x \<le> 1" using assms n0 by simp
  have "(1::rat) / 2 ^ 24 \<le> 1 / of_nat n"
    using assms n0 by (intro divide_left_mono) (simp_all add: of_nat_le_iff [of n "2 ^ 24", where ?'a = rat, simplified])
  also have "\<dots> \<le> ?x"
    using assms n0 by (intro divide_right_mono) simp_all
  finally have xl: "1 / 2 ^ 24 \<le> ?x" .
  show "0 \<le> fdiv (float_of_nat c) (float_of_nat n)"
    unfolding p using x0 by (rule fl_nonneg)
  show "fdiv (float_of_nat c) (float_of_nat n) \<le> 1"
    unfolding p using x1 by (rule fl_le_one)
  have "\<bar>?x\<bar> \<le> 2 powi 0" using x0 x1 by simp
  from fl_error_le [OF this] have e: "\<bar>fl ?x - ?x\<bar> \<le> 2 powi (- 53)"
    by simp
  then show "\<bar>fdiv (float_of_nat c) (float_of_nat n) - of_nat c / of_nat n\<bar> \<le> 2 powi (- 53)"
    by (simp add: p)
  have "(2::rat) powi (- 511) \<le> 1 / 2 ^ 24 - 2 powi (- 53)"
    by (simp add: power_int_minus)
  also have "\<dots> \<le> fl ?x"
    using e xl by linarith
  finally show "2 powi (- 511) \<le> fdiv (float_of_nat c) (float_of_nat n)"
    by (simp add: p)
qed

lemma fsquare_error:
  assumes "pow_accurate pw" and "2 powi (- 511) \<le> p" and "p \<le> 1"
  shows "0 \<le> fsquare pw p" and "\<bar>fsquare pw p - p * p\<bar> \<le> 2 powi (- 52)"
proof -
  have p0: "0 \<le> p"
    using assms(2) by (rule order_trans [rotated]) simp
  have pp: "0 \<le> p * p" "p * p \<le> 1"
    using p0 assms(3) by (simp_all add: mult_le_one)
  from assms have a: "\<bar>pw p - p * p\<bar> \<le> 2 powi (- 52) * (p * p)"
    by (simp add: pow_accurate_def)
  also have "\<dots> \<le> 2 powi (- 52) * 1"
    using pp by (intro mult_left_mono) simp_all
  finally have b: "\<bar>pw p - p * p\<bar> \<le> 2 powi (- 52)"
    by simp
  have "(2::rat) powi (- 52) * (p * p) \<le> 1 * (p * p)"
    using pp by (intro mult_right_mono) (simp_all add: power_int_minus)
  with a have "0 \<le> pw p"
    by linarith
  with pp show "0 \<le> fsquare pw p"
    by (simp add: fsquare_def)
  from b show "\<bar>fsquare pw p - p * p\<bar> \<le> 2 powi (- 52)"
    by (simp add: fsquare_def)
qed

lemma squared_share_error:
  assumes "pow_accurate pw" and "1 \<le> c" and "c \<le> n" and "n \<le> 2 ^ 24"
  shows "0 \<le> fsquare pw (fdiv (float_of_nat c) (float_of_nat n))"
    and "\<bar>fsquare pw (fdiv (float_of_nat c) (float_of_nat n)) - (of_nat c / of_nat n)\<^sup>2\<bar>
           \<le> 2 powi (- 51)"
proof -
  let ?p = "fdiv (float_of_nat c) (float_of_nat n)"
  let ?x = "of_nat c / of_nat n :: rat"
  note s = share_error [OF assms(2-4)]
  note f = fsquare_error [OF assms(1) s(4) s(2)]
  show "0 \<le> fsquare pw ?p" by (rule f(1))
  have x: "0 \<le> ?x" "?x \<le> 1"
    using assms by simp_all
  have "\<bar>?p * ?p - ?x * ?x\<bar> = \<bar>?p - ?x\<bar> * \<bar>?p + ?x\<bar>"
    by (simp add: abs_mult [symmetric] algebra_simps)
  also have "\<dots> \<le> 2 powi (- 53) * 2"
    using s(1,2,3) x by (intro mult_mono) simp_all
  finally have "\<bar>?p * ?p - ?x * ?x\<bar> \<le> 2 powi (- 53) * 2" .
  with f(2) have "\<bar>fsquare pw ?p - ?x * ?x\<bar> \<le> 2 powi (- 52) + 2 powi (- 53) * 2"
    by linarith
  also have "\<dots> = 2 powi (- 51)"
    by (simp add: power_int_minus)
  finally show "\<bar>fsquare pw ?p - ?x\<^sup>2\<bar> \<le> 2 powi (- 51)"
    by (simp add: power2_eq_square)
qed

lemma gini_fold_error:
  fixes s x :: "'a \<Rightarrow> rat"
  assumes "\<forall>l\<in>set ks. 0 \<le> x l \<and> \<bar>s l - x l\<bar> \<le> 2 powi (- 51)"
    and "\<bar>i - a\<bar> \<le> d" and "sum_list (map x ks) \<le> a" and "a \<le> 1"
    and "d + of_nat (length ks) * 2 powi (- 50) \<le> 1" and "0 \<le> d"
  shows "\<bar>foldl (\<lambda>i l. fsub i (s l)) i ks - (a - sum_list (map x ks))\<bar>
           \<le> d + of_nat (length ks) * 2 powi (- 50)"
  using assms
proof (induction ks arbitrary: i a d)
  case Nil
  then show ?case by simp
next
  case (Cons l ks)
  let ?E = "2 powi (- 50) :: rat"
  have E: "(2::rat) powi (- 51) + 2 powi (- 52) \<le> ?E" "(0::rat) \<le> ?E" "(2::rat) powi (- 51) \<le> ?E"
    by (simp_all add: power_int_minus)
  from Cons.prems(1) have xl: "0 \<le> x l" and sl: "\<bar>s l - x l\<bar> \<le> 2 powi (- 51)"
    and rest: "\<forall>l\<in>set ks. 0 \<le> x l \<and> \<bar>s l - x l\<bar> \<le> 2 powi (- 51)"
    by simp_all
  have r0: "0 \<le> sum_list (map x ks)"
    using rest by (intro sum_list_nonneg) auto
  let ?a = "a - x l"
  have a1: "sum_list (map x ks) \<le> ?a" "?a \<le> 1" "0 \<le> ?a"
    using Cons.prems(3,4) xl r0 by simp_all
  have len: "0 \<le> of_nat (length ks) * ?E"
    by simp
  have e3: "of_nat (length (l # ks)) * ?E = ?E + of_nat (length ks) * ?E"
    by (simp add: algebra_simps)
  with Cons.prems(5) len have d1: "d + ?E \<le> 1"
    by linarith
  have close: "\<bar>(i - s l) - ?a\<bar> \<le> d + 2 powi (- 51)"
    using Cons.prems(2) sl by linarith
  then have "\<bar>i - s l\<bar> \<le> 1 + (d + 2 powi (- 51))"
    using a1 by linarith
  also have "\<dots> \<le> 2 powi 1"
    using d1 E(3) by simp
  finally have "\<bar>fl (i - s l) - (i - s l)\<bar> \<le> 2 powi (1 - 53)"
    by (rule fl_error_le) simp
  then have "\<bar>fl (i - s l) - (i - s l)\<bar> \<le> 2 powi (- 52)"
    by simp
  with close have "\<bar>fsub i (s l) - ?a\<bar> \<le> d + 2 powi (- 51) + 2 powi (- 52)"
    unfolding fsub_def by linarith
  then have step: "\<bar>fsub i (s l) - ?a\<bar> \<le> d + ?E"
    using E(1) by linarith
  have b5: "(d + ?E) + of_nat (length ks) * ?E \<le> 1"
    using Cons.prems(5) e3 by linarith
  have b6: "0 \<le> d + ?E"
    using Cons.prems(6) E(2) by linarith
  note ih = Cons.IH [OF rest step a1(1) a1(2) b5 b6]
  have e1: "foldl (\<lambda>i l. fsub i (s l)) i (l # ks) = foldl (\<lambda>i l. fsub i (s l)) (fsub i (s l)) ks"
    by simp
  have e2: "a - sum_list (map x (l # ks)) = ?a - sum_list (map x ks)"
    by simp
  show ?case
    unfolding e1 e2 e3 using ih by linarith
qed

subsection \<open>The exact impurity\<close>

lemma count_list_pos: "l \<in> set ls \<Longrightarrow> 0 < count_list ls l"
  by (induction ls) auto

lemma count_list_two: "l \<noteq> l' \<Longrightarrow> count_list ls l + count_list ls l' \<le> length ls"
  by (induction ls) auto

lemma shares_sum:
  assumes "rs \<noteq> []"
  shows "(\<Sum>l\<in>set (labels rs). of_nat (count_list (labels rs) l) / (of_nat (length rs) :: rat)) = 1"
proof -
  let ?ls = "labels rs"
  let ?n = "of_nat (length rs) :: rat"
  have n: "0 < ?n" using assms by simp
  have len: "length ?ls = length rs" by (simp add: labels_def)
  have "(\<Sum>l\<in>set ?ls. of_nat (count_list ?ls l) / ?n) = (\<Sum>l\<in>set ?ls. of_nat (count_list ?ls l)) / ?n"
    by (simp add: sum_divide_distrib)
  also have "(\<Sum>l\<in>set ?ls. (of_nat (count_list ?ls l) :: rat)) = of_nat (\<Sum>l\<in>set ?ls. count_list ?ls l)"
    by simp
  also have "(\<Sum>l\<in>set ?ls. count_list ?ls l) = length rs"
    using len by (simp add: sum_count_set)
  finally show ?thesis
    using n by simp
qed

lemma share_bounds:
  assumes "l \<in> set (labels rs)"
  shows "1 / of_nat (length rs) \<le> of_nat (count_list (labels rs) l) / (of_nat (length rs) :: rat)"
    and "of_nat (count_list (labels rs) l) / (of_nat (length rs) :: rat) \<le> 1"
    and "1 \<le> count_list (labels rs) l" and "count_list (labels rs) l \<le> length rs"
proof -
  have len: "length (labels rs) = length rs" by (simp add: labels_def)
  from assms have "rs \<noteq> []" by (auto simp: labels_def)
  then have n: "(0::rat) < of_nat (length rs)" by simp
  show c1: "1 \<le> count_list (labels rs) l"
    using count_list_pos [OF assms] by simp
  show c2: "count_list (labels rs) l \<le> length rs"
    using count_le_length [of "labels rs" l] len by simp
  from c1 have "(1::rat) \<le> of_nat (count_list (labels rs) l)"
    by simp
  then show "1 / of_nat (length rs) \<le> of_nat (count_list (labels rs) l) / (of_nat (length rs) :: rat)"
    using n by (intro divide_right_mono) simp_all
  from c2 have "(of_nat (count_list (labels rs) l) :: rat) \<le> of_nat (length rs)"
    by simp
  then show "of_nat (count_list (labels rs) l) / (of_nat (length rs) :: rat) \<le> 1"
    using n by simp
qed

lemma impurity_exact_bounds:
  assumes "rs \<noteq> []"
  shows "0 \<le> impurity_exact rs" and "impurity_exact rs \<le> 1 - 1 / of_nat (length rs)"
proof -
  let ?ls = "labels rs"
  let ?n = "of_nat (length rs) :: rat"
  let ?x = "\<lambda>l. of_nat (count_list ?ls l) / ?n"
  have n: "0 < ?n" using assms by simp
  note one = shares_sum [OF assms]
  have "(\<Sum>l\<in>set ?ls. (?x l)\<^sup>2) \<le> (\<Sum>l\<in>set ?ls. ?x l)"
  proof (rule sum_mono)
    fix l assume "l \<in> set ?ls"
    from share_bounds(2) [OF this] have "?x l * ?x l \<le> 1 * ?x l"
      by (intro mult_right_mono) simp_all
    then show "(?x l)\<^sup>2 \<le> ?x l"
      by (simp add: power2_eq_square)
  qed
  with one show "0 \<le> impurity_exact rs"
    by (simp add: impurity_exact_def)
  have "(\<Sum>l\<in>set ?ls. ?x l * (1 / ?n)) \<le> (\<Sum>l\<in>set ?ls. (?x l)\<^sup>2)"
  proof (rule sum_mono)
    fix l assume "l \<in> set ?ls"
    from share_bounds(1) [OF this] have "?x l * (1 / ?n) \<le> ?x l * ?x l"
      by (intro mult_left_mono) simp_all
    then show "?x l * (1 / ?n) \<le> (?x l)\<^sup>2"
      by (simp add: power2_eq_square)
  qed
  moreover have "(\<Sum>l\<in>set ?ls. ?x l * (1 / ?n)) = 1 / ?n"
    unfolding sum_distrib_right [symmetric] one by simp
  ultimately show "impurity_exact rs \<le> 1 - 1 / ?n"
    by (simp add: impurity_exact_def)
qed

lemma impurity_exact_mixed:
  assumes "r \<in> set rs" and "r' \<in> set rs" and "r ''Model'' \<noteq> r' ''Model''"
  shows "1 / of_nat (length rs) \<le> impurity_exact rs"
proof -
  let ?ls = "labels rs"
  let ?n = "of_nat (length rs) :: rat"
  let ?x = "\<lambda>l. of_nat (count_list ?ls l) / ?n"
  from assms(1) have ne: "rs \<noteq> []" by auto
  then have n: "0 < ?n" by simp
  have len: "length ?ls = length rs" by (simp add: labels_def)
  note one = shares_sum [OF ne]
  have other: "\<exists>l'\<in>set ?ls. l' \<noteq> l" for l
  proof (cases "l = r ''Model''")
    case True
    with assms(2,3) have "r' ''Model'' \<in> set ?ls" and "r' ''Model'' \<noteq> l"
      by (simp_all add: labels_def)
    then show ?thesis ..
  next
    case False
    with assms(1) have "r ''Model'' \<in> set ?ls" and "r ''Model'' \<noteq> l"
      by (simp_all add: labels_def)
    then show ?thesis ..
  qed
  have le: "?x l \<le> 1 - 1 / ?n" if "l \<in> set ?ls" for l
  proof -
    from other obtain l' where l': "l' \<in> set ?ls" "l' \<noteq> l" by blast
    from count_list_two [of l l' ?ls] l'(2) count_list_pos [OF l'(1)] len
    have "count_list ?ls l + 1 \<le> length rs"
      by simp
    then have "(of_nat (count_list ?ls l + 1) :: rat) \<le> ?n"
      by (simp only: of_nat_le_iff)
    then have "of_nat (count_list ?ls l) \<le> ?n - 1"
      by simp
    then have "?x l \<le> (?n - 1) / ?n"
      using n by (intro divide_right_mono) simp_all
    also have "\<dots> = 1 - 1 / ?n"
      using n by (simp add: diff_divide_distrib)
    finally show ?thesis .
  qed
  have "(\<Sum>l\<in>set ?ls. (?x l)\<^sup>2) \<le> (\<Sum>l\<in>set ?ls. ?x l * (1 - 1 / ?n))"
  proof (rule sum_mono)
    fix l assume "l \<in> set ?ls"
    from le [OF this] have "?x l * ?x l \<le> ?x l * (1 - 1 / ?n)"
      by (intro mult_left_mono) simp_all
    then show "(?x l)\<^sup>2 \<le> ?x l * (1 - 1 / ?n)"
      by (simp add: power2_eq_square)
  qed
  moreover have "(\<Sum>l\<in>set ?ls. ?x l * (1 - 1 / ?n)) = 1 - 1 / ?n"
    unfolding sum_distrib_right [symmetric] one by simp
  ultimately show ?thesis
    by (simp add: impurity_exact_def)
qed

lemma impurity_error:
  assumes "pow_accurate pw" and "rs \<noteq> []" and "length rs \<le> 2 ^ 24"
  shows "\<bar>impurity pw rs - impurity_exact rs\<bar> \<le> of_nat (card (set (labels rs))) * 2 powi (- 50)"
proof -
  let ?ls = "labels rs"
  let ?n = "length rs"
  let ?ks = "unique ?ls"
  let ?s = "\<lambda>l. fsquare pw (fdiv (float_of_nat (count_list ?ls l)) (float_of_nat ?n))"
  let ?x = "\<lambda>l. (of_nat (count_list ?ls l) / of_nat ?n :: rat)\<^sup>2"
  have len: "length ?ls = ?n" by (simp add: labels_def)
  have k: "length ?ks = card (set ?ls)"
    using distinct_card [of ?ks] by simp
  have sum: "sum_list (map ?x ?ks) = (\<Sum>l\<in>set ?ls. ?x l)"
    using sum_list_distinct_conv_sum_set [of ?ks ?x] by simp
  have 1: "\<forall>l\<in>set ?ks. 0 \<le> ?x l \<and> \<bar>?s l - ?x l\<bar> \<le> 2 powi (- 51)"
  proof
    fix l assume "l \<in> set ?ks"
    then have l: "l \<in> set ?ls" by simp
    from squared_share_error(2) [OF assms(1) share_bounds(3) [OF l] share_bounds(4) [OF l] assms(3)]
    show "0 \<le> ?x l \<and> \<bar>?s l - ?x l\<bar> \<le> 2 powi (- 51)"
      by simp
  qed
  have 3: "sum_list (map ?x ?ks) \<le> 1"
    using impurity_exact_bounds(1) [OF assms(2)] by (simp add: sum impurity_exact_def)
  have "card (set ?ls) \<le> length ?ls"
    by (rule card_length)
  with len assms(3) have "card (set ?ls) \<le> 2 ^ 24"
    by simp
  then have "(of_nat (card (set ?ls)) :: rat) \<le> 2 ^ 24"
    by (simp add: of_nat_le_iff [of _ "2 ^ 24", where ?'a = rat, simplified])
  then have "of_nat (card (set ?ls)) * 2 powi (- 50) \<le> (2 ^ 24 :: rat) * 2 powi (- 50)"
    by (intro mult_right_mono) simp_all
  also have "\<dots> \<le> 1"
    by (simp add: power_int_minus)
  finally have 5: "0 + of_nat (length ?ks) * 2 powi (- 50) \<le> (1::rat)"
    by (simp add: k)
  have "\<bar>foldl (\<lambda>i l. fsub i (?s l)) 1 ?ks - (1 - sum_list (map ?x ?ks))\<bar>
          \<le> 0 + of_nat (length ?ks) * 2 powi (- 50)"
    using 1 _ 3 _ 5 by (rule gini_fold_error) simp_all
  then show ?thesis
    by (simp add: impurity_def impurity_exact_def sum k)
qed

subsection \<open>The range of the impurity\<close>

lemma impurity_error_small:
  assumes "rs \<noteq> []" and "length rs \<le> 2 ^ 24"
  shows "of_nat (card (set (labels rs))) * 2 powi (- 50) < 1 / (of_nat (length rs) :: rat)"
proof -
  let ?n = "of_nat (length rs) :: rat"
  have n: "0 < ?n" using assms(1) by simp
  have "card (set (labels rs)) \<le> length (labels rs)"
    by (rule card_length)
  then have "card (set (labels rs)) \<le> length rs"
    by (simp add: labels_def)
  then have k: "(of_nat (card (set (labels rs))) :: rat) \<le> ?n"
    by (simp only: of_nat_le_iff)
  from assms(2) have n24: "?n \<le> 2 ^ 24"
    by (simp add: of_nat_le_iff [of _ "2 ^ 24", where ?'a = rat, simplified])
  have "of_nat (card (set (labels rs))) * 2 powi (- 50) * ?n \<le> 2 ^ 24 * 2 powi (- 50) * 2 ^ 24"
    using k n24 n by (intro mult_mono) simp_all
  also have "\<dots> < 1"
    by (simp add: power_int_minus)
  finally show ?thesis
    using n by (simp add: pos_less_divide_eq)
qed

lemma impurity_range:
  assumes "pow_accurate pw" and "rs \<noteq> []" and "length rs \<le> 2 ^ 24"
  shows "0 \<le> impurity pw rs" and "impurity pw rs < 1"
    and "impurity pw rs = 0 \<longleftrightarrow> (\<exists>l. \<forall>r\<in>set rs. r ''Model'' = l)"
proof -
  note e = impurity_error [OF assms]
  note s = impurity_error_small [OF assms(2,3)]
  from e s impurity_exact_bounds(2) [OF assms(2)] show "impurity pw rs < 1"
    by linarith
  have pos: "0 < impurity pw rs" if "\<not> (\<exists>l. \<forall>r\<in>set rs. r ''Model'' = l)"
  proof -
    from assms(2) obtain r where r: "r \<in> set rs"
      by (cases rs) auto
    with that obtain r' where "r' \<in> set rs" "r' ''Model'' \<noteq> r ''Model''"
      by blast
    with r have "1 / of_nat (length rs) \<le> impurity_exact rs"
      by (intro impurity_exact_mixed [of r rs r']) simp_all
    with e s show ?thesis
      by linarith
  qed
  have zero: "impurity pw rs = 0" if "\<exists>l. \<forall>r\<in>set rs. r ''Model'' = l"
    using that assms(2) by (auto intro: impurity_single)
  from pos zero show "0 \<le> impurity pw rs"
    by (cases "\<exists>l. \<forall>r\<in>set rs. r ''Model'' = l") (simp_all add: less_imp_le)
  from pos zero show "impurity pw rs = 0 \<longleftrightarrow> (\<exists>l. \<forall>r\<in>set rs. r ''Model'' = l)"
    by (cases "\<exists>l. \<forall>r\<in>set rs. r ''Model'' = l") auto
qed

lemma unique_distinct: "distinct xs \<Longrightarrow> unique xs = xs"
  by (simp add: unique_def distinct_remdups_id)

lemma foldl_fixed:
  assumes "\<forall>l\<in>set ks. f i l = i"
  shows "foldl f i ks = i"
  using assms by (induction ks) simp_all

lemma count_list_distinct: "distinct ls \<Longrightarrow> l \<in> set ls \<Longrightarrow> count_list ls l = 1"
  by (induction ls) (auto simp: count_notin)

lemma impurity_many_distinct:
  assumes "distinct (labels rs)" and "length rs = 2 ^ 27"
  shows "impurity pw rs = 1"
proof -
  let ?ls = "labels rs"
  have n: "float_of_nat (length rs) = 2 ^ 27"
    using float_of_nat_exact [of "2 ^ 27"] by (simp add: assms(2))
  have one: "float_of_nat 1 = 1"
    by (simp add: float_of_nat_def)
  have d: "fdiv 1 (2 ^ 27) = 1 / 2 ^ 27"
    using fl_near [of "- 27" "1 / 2 ^ 27" "2 ^ 52"] by (simp add: fdiv_def power_int_minus)
  have q: "fl (1 / 2 ^ 54) = 1 / 2 ^ 54"
    using fl_near [of "- 54" "1 / 2 ^ 54" "2 ^ 52"] by (simp add: power_int_minus)
  have s: "fsquare pw (1 / 2 ^ 27) = 1 / 2 ^ 54"
    using q by (simp add: fsquare_def)
  have t: "fsub 1 (1 / 2 ^ 54) = 1"
    using fl_tie [of "- 1" "1 - 1 / 2 ^ 54" "2 ^ 53"] by (simp add: fsub_def power_int_minus)
  have step: "fsub 1 (fsquare pw (fdiv (float_of_nat 1) (float_of_nat (length rs)))) = 1"
    by (simp only: n one d s t)
  have "\<forall>l\<in>set (unique ?ls).
      fsub 1 (fsquare pw (fdiv (float_of_nat (count_list ?ls l)) (float_of_nat (length rs)))) = 1"
  proof
    fix l assume "l \<in> set (unique ?ls)"
    then have "l \<in> set ?ls" by simp
    with assms(1) have "count_list ?ls l = 1" by (rule count_list_distinct)
    then show "fsub 1 (fsquare pw (fdiv (float_of_nat (count_list ?ls l)) (float_of_nat (length rs)))) = 1"
      by (simp only: step)
  qed
  then show ?thesis
    unfolding impurity_def by (rule foldl_fixed)
qed

lemma distinct_data_labels:
  "distinct (labels (map (\<lambda>i c. Num (of_nat i)) [0..<k]))"
  by (simp add: labels_def distinct_map comp_def inj_on_def)

lemma distinct_data_impurity:
  "impurity pw (map (\<lambda>i c. Num (of_nat i)) [0..<2 ^ 27]) = 1"
proof -
  have "length (map (\<lambda>i (c::string). Num (of_nat i)) [0..<2 ^ 27]) = 2 ^ 27"
    by simp
  with distinct_data_labels show ?thesis
    by (rule impurity_many_distinct)
qed

lemma distinct_data_gini: "gini pw distinct_data = Inr 1"
proof -
  have "''Model'' \<in> set [''Model'']" by simp
  then have "gini pw distinct_data
      = Inr (impurity pw (map (\<lambda>i c. Num (of_nat i)) [0..<2 ^ 27]))"
    unfolding distinct_data_def by (rule gini_DataFrame)
  then show ?thesis
    by (simp only: distinct_data_impurity)
qed

lemma abc_data_impurity:
  "impurity pow_nearest [shape_row ''V'' ''A'', shape_row ''V'' ''B'', shape_row ''V'' ''C'']
     = 1501199875790165 / 2251799813685248"
  by (simp add: impurity_def labels_def unique_def float_ops fl_values)

lemma abc_data_impurity_exact:
  "impurity_exact [shape_row ''V'' ''A'', shape_row ''V'' ''B'', shape_row ''V'' ''C''] = 2 / 3"
  by (simp add: impurity_exact_def labels_def power2_eq_square)

text \<open>
  Claim C7, as the specification has it: \<^verbatim>\<open>gini\<close> equals 1 minus the sum of the squared
  shares, and lies in \<open>[0, 1)\<close>. The doubles of the program do neither. On three rows
  with three labels the formula gives \<open>2/3\<close>, and \<^verbatim>\<open>gini\<close> returns 0.6666666666666665,
  which is not the double nearest to \<open>2/3\<close> either. On \<open>2\<^sup>2\<^sup>7\<close> rows with as many labels
  each squared share is \<open>2\<^sup>-\<^sup>5\<^sup>4\<close>, every subtraction from 1.0 rounds back to 1.0, and
  \<^verbatim>\<open>gini\<close> returns 1.0, outside \<open>[0, 1)\<close>.
\<close>

theorem gini_rounding:
  "gini pow_nearest abc_data = Inr (1501199875790165 / 2251799813685248)
   \<and> impurity_exact (rows_of abc_data) = 2 / 3
   \<and> fl (2 / 3) = 6004799503160661 / 9007199254740992
   \<and> gini pow_nearest distinct_data = Inr 1"
  by (simp add: abc_data_def gini_DataFrame abc_data_impurity abc_data_impurity_exact
      distinct_data_gini fl_values)

text \<open>
  Claim C7, amended: for a non-empty dataset \<^verbatim>\<open>gini\<close> returns the value of the loop
  that starts at 1 and subtracts, for each distinct label in order of first appearance,
  the square of its rounded share, rounding after each subtraction; this value is 0
  when all rows have the same label. If the library's \<^verbatim>\<open>pow\<close> is accurate to one unit
  in the last place and the dataset has at most \<open>2\<^sup>2\<^sup>4\<close> rows, the value differs from 1
  minus the sum of the squared shares by at most \<open>k * 2\<^sup>-\<^sup>5\<^sup>0\<close>, for \<open>k\<close> distinct labels,
  it lies in \<open>[0, 1)\<close>, and it is 0 only when all rows have the same label.
\<close>

theorem gini_formula:
  assumes "''Model'' \<in> set cols" and "rs \<noteq> []"
  shows "\<exists>g. gini pw (DataFrame cols rs) = Inr g
         \<and> g = foldl (\<lambda>i l. fsub i (fsquare pw (fdiv (float_of_nat (count_list (labels rs) l))
                                                     (float_of_nat (length rs)))))
                  1 (unique (labels rs))
         \<and> ((\<exists>l. \<forall>r\<in>set rs. r ''Model'' = l) \<longrightarrow> g = 0)
         \<and> (pow_accurate pw \<and> length rs \<le> 2 ^ 24 \<longrightarrow>
              \<bar>g - (1 - (\<Sum>l\<in>set (labels rs).
                             (of_nat (count_list (labels rs) l) / of_nat (length rs))\<^sup>2))\<bar>
                 \<le> of_nat (card (set (labels rs))) * 2 powi (- 50)
              \<and> 0 \<le> g \<and> g < 1
              \<and> (g = 0 \<longrightarrow> (\<exists>l. \<forall>r\<in>set rs. r ''Model'' = l)))"
proof -
  have "gini pw (DataFrame cols rs) = Inr (impurity pw rs)"
    using assms(1) by (rule gini_DataFrame)
  moreover have "impurity pw rs = foldl (\<lambda>i l. fsub i (fsquare pw (fdiv (float_of_nat (count_list (labels rs) l))
                                                     (float_of_nat (length rs)))))
                  1 (unique (labels rs))"
    by (simp add: impurity_def)
  moreover have "(\<exists>l. \<forall>r\<in>set rs. r ''Model'' = l) \<longrightarrow> impurity pw rs = 0"
    using assms(2) by (auto intro: impurity_single)
  moreover have "\<bar>impurity pw rs - (1 - (\<Sum>l\<in>set (labels rs).
                             (of_nat (count_list (labels rs) l) / of_nat (length rs))\<^sup>2))\<bar>
                 \<le> of_nat (card (set (labels rs))) * 2 powi (- 50)
              \<and> 0 \<le> impurity pw rs \<and> impurity pw rs < 1
              \<and> (impurity pw rs = 0 \<longrightarrow> (\<exists>l. \<forall>r\<in>set rs. r ''Model'' = l))"
    if "pow_accurate pw \<and> length rs \<le> 2 ^ 24"
  proof -
    from that have a: "pow_accurate pw" and n: "length rs \<le> 2 ^ 24"
      by simp_all
    from impurity_error [OF a assms(2) n] impurity_range [OF a assms(2) n]
    show ?thesis
      unfolding impurity_exact_def by blast
  qed
  ultimately show ?thesis
    by blast
qed

theorem gini_formula_witness:
  "gini pow_nearest single_data = Inr 0
   \<and> (\<exists>g. gini pow_nearest abc_data = Inr g \<and> \<bar>g - 2 / 3\<bar> \<le> 3 * 2 powi (- 50)
            \<and> 0 < g \<and> g < 1)"
proof -
  have m: "''Model'' \<in> set [''Shape'', ''Model'']" by simp
  let ?rs = "[shape_row ''V'' ''A'', shape_row ''U'' ''A'', shape_row ''V'' ''A'']"
  let ?as = "[shape_row ''V'' ''A'', shape_row ''V'' ''B'', shape_row ''V'' ''C'']"
  have ne: "?rs \<noteq> []" "?as \<noteq> []" by simp_all
  have l: "\<exists>l. \<forall>r\<in>set ?rs. r ''Model'' = l"
    by (rule exI [of _ "Str ''A''"]) simp
  have nl: "\<not> (\<exists>l. \<forall>r\<in>set ?as. r ''Model'' = l)"
    by simp
  have h: "pow_accurate pow_nearest \<and> length ?as \<le> 2 ^ 24"
    by (simp add: pow_nearest_accurate)
  have e: "(1 - (\<Sum>l\<in>set (labels ?as). (of_nat (count_list (labels ?as) l) / of_nat (length ?as))\<^sup>2))
      = (2 / 3 :: rat)"
    using abc_data_impurity_exact by (simp only: impurity_exact_def)
  have k: "card (set (labels ?as)) = 3"
    by (simp add: labels_def)
  from gini_formula [OF m ne(1), where pw = pow_nearest] l
  have "gini pow_nearest single_data = Inr 0"
    unfolding single_data_def by auto
  moreover from gini_formula [OF m ne(2), where pw = pow_nearest] h nl
  have "\<exists>g. gini pow_nearest abc_data = Inr g \<and> \<bar>g - 2 / 3\<bar> \<le> 3 * 2 powi (- 50)
            \<and> 0 < g \<and> g < 1"
    unfolding abc_data_def e k by (auto simp: less_le)
  ultimately show ?thesis ..
qed

section \<open>The gain of a split\<close>

subsection \<open>The error of the gain\<close>

text \<open>
  \<^verbatim>\<open>info_gain\<close> rounds seven times on top of the three impurities: for at most
  \<open>2\<^sup>2\<^sup>4\<close> rows and \<open>k\<close> distinct labels its value is within \<open>(3 * k + 2) * 2\<^sup>-\<^sup>5\<^sup>0\<close> of
  the exact gain.
\<close>

lemma mult_error:
  fixes p g :: rat
  assumes "\<bar>p - p'\<bar> \<le> e" and "\<bar>g - g'\<bar> \<le> d" and "0 \<le> g" and "g \<le> 1" and "0 \<le> p'" and "p' \<le> 1"
  shows "\<bar>p * g - p' * g'\<bar> \<le> e + d"
proof -
  have "p * g - p' * g' = (p - p') * g + p' * (g - g')"
    by (simp add: algebra_simps)
  then have "\<bar>p * g - p' * g'\<bar> \<le> \<bar>p - p'\<bar> * \<bar>g\<bar> + \<bar>p'\<bar> * \<bar>g - g'\<bar>"
    by (simp add: abs_mult [symmetric]) 
  also have "\<dots> \<le> e * 1 + 1 * d"
    using assms by (intro add_mono mult_mono) simp_all
  finally show ?thesis by simp
qed

lemma fl_unit:
  assumes "0 \<le> x" and "x \<le> 1"
  shows "0 \<le> fl x" and "fl x \<le> 1" and "\<bar>fl x - x\<bar> \<le> 2 powi (- 53)"
proof -
  show "0 \<le> fl x" using assms(1) by (rule fl_nonneg)
  show "fl x \<le> 1" using assms(2) by (rule fl_le_one)
  have "\<bar>x\<bar> \<le> 2 powi 0" using assms by simp
  from fl_error_le [OF this] show "\<bar>fl x - x\<bar> \<le> 2 powi (- 53)" by simp
qed

lemma gain_error:
  assumes "pow_accurate pw" and "ls \<noteq> []" and "rs \<noteq> []" and "length ls + length rs \<le> 2 ^ 24"
  shows "\<bar>gain_of pw ls rs (impurity pw (ls @ rs)) - gain_exact ls rs\<bar>
           \<le> (3 * of_nat (card (set (labels (ls @ rs)))) + 2) * 2 powi (- 50)"
proof -
  let ?K = "of_nat (card (set (labels (ls @ rs)))) :: rat"
  define E where "E = ?K * 2 powi (- 50)"
  define u where "u = (2::rat) powi (- 53)"
  have u: "2 powi (- 50) = 8 * u" "2 powi (- 52) = 2 * u" "2 powi (- 51) = 4 * u" "0 \<le> u"
    "u \<le> 1"
    by (simp_all add: u_def power_int_minus)
  have app: "labels (ls @ rs) = labels ls @ labels rs"
    by (simp add: labels_def)
  have lens: "length ls \<le> 2 ^ 24" "length rs \<le> 2 ^ 24" "length (ls @ rs) \<le> 2 ^ 24" "ls @ rs \<noteq> []"
    using assms(2,4) by simp_all
  have "card (set (labels ls)) \<le> card (set (labels (ls @ rs)))"
    by (intro card_mono) (simp_all add: app)
  then have kl: "of_nat (card (set (labels ls))) * 2 powi (- 50) \<le> E"
    unfolding E_def by (intro mult_right_mono) simp_all
  have "card (set (labels rs)) \<le> card (set (labels (ls @ rs)))"
    by (intro card_mono) (simp_all add: app)
  then have kr: "of_nat (card (set (labels rs))) * 2 powi (- 50) \<le> E"
    unfolding E_def by (intro mult_right_mono) simp_all
  define cur gl gr where "cur = impurity pw (ls @ rs)" and "gl = impurity pw ls" and "gr = impurity pw rs"
  define cur' gl' gr' where "cur' = impurity_exact (ls @ rs)" and "gl' = impurity_exact ls"
    and "gr' = impurity_exact rs"
  have ec: "\<bar>cur - cur'\<bar> \<le> E"
    using impurity_error [OF assms(1) lens(4,3)] by (simp add: cur_def cur'_def E_def)
  have el: "\<bar>gl - gl'\<bar> \<le> E"
    using impurity_error [OF assms(1,2) lens(1)] kl by (simp add: gl_def gl'_def)
  have er: "\<bar>gr - gr'\<bar> \<le> E"
    using impurity_error [OF assms(1,3) lens(2)] kr by (simp add: gr_def gr'_def)
  have rc: "0 \<le> cur" "cur \<le> 1"
    using impurity_range(1,2) [OF assms(1) lens(4,3)] by (simp_all add: cur_def)
  have rl: "0 \<le> gl" "gl \<le> 1"
    using impurity_range(1,2) [OF assms(1,2) lens(1)] by (simp_all add: gl_def)
  have rr: "0 \<le> gr" "gr \<le> 1"
    using impurity_range(1,2) [OF assms(1,3) lens(2)] by (simp_all add: gr_def)
  define p' where "p' = (of_nat (length ls) / of_nat (length ls + length rs) :: rat)"
  define p where "p = fdiv (float_of_nat (length ls)) (float_of_nat (length ls + length rs))"
  have n1: "1 \<le> length ls" "length ls \<le> length ls + length rs"
    using assms(2) by (simp_all add: Suc_le_eq)
  have p: "0 \<le> p" "p \<le> 1" "\<bar>p - p'\<bar> \<le> u"
    using share_error(1,2,3) [OF n1 assms(4)] by (simp_all add: p_def p'_def u_def)
  have "0 < length ls + length rs"
    using assms(2) by simp
  then have N: "(0::rat) < of_nat (length ls + length rs)"
    by (simp only: of_nat_0_less_iff)
  have "length ls \<le> length ls + length rs"
    by simp
  then have "(of_nat (length ls) :: rat) \<le> of_nat (length ls + length rs)"
    by (simp only: of_nat_le_iff)
  with N have "p' \<le> 1"
    by (simp only: p'_def divide_le_eq_1_pos)
  moreover have "0 \<le> p'"
    unfolding p'_def by (intro divide_nonneg_nonneg) (simp_all only: of_nat_0_le_iff)
  ultimately have p': "0 \<le> p'" "p' \<le> 1"
    by simp_all
  define a where "a = fmul p gl"
  have pg: "0 \<le> p * gl" "p * gl \<le> 1"
    using p rl by (simp_all add: mult_le_one)
  have a: "0 \<le> a" "a \<le> 1" "\<bar>a - p * gl\<bar> \<le> u"
    using fl_unit [OF pg] by (simp_all add: a_def fmul_def u_def)
  have a': "\<bar>a - p' * gl'\<bar> \<le> E + 2 * u"
    using mult_error [OF p(3) el rl p'] a(3) by linarith
  define b where "b = fsub cur a"
  have "\<bar>cur - a\<bar> \<le> 2 powi 0"
    using rc a by simp
  from fl_error_le [OF this] have b1: "\<bar>b - (cur - a)\<bar> \<le> u"
    by (simp add: b_def fsub_def u_def)
  have b': "\<bar>b - (cur' - p' * gl')\<bar> \<le> 2 * E + 3 * u"
    using b1 ec a' by linarith
  have bb: "\<bar>b\<bar> \<le> 2"
    using b1 rc a(1,2) u(5) by linarith
  define q where "q = fsub 1 p"
  have "0 \<le> 1 - p" "1 - p \<le> 1"
    using p by simp_all
  from fl_unit [OF this] have q: "0 \<le> q" "q \<le> 1" "\<bar>q - (1 - p)\<bar> \<le> u"
    by (simp_all add: q_def fsub_def u_def)
  have q': "\<bar>q - (1 - p')\<bar> \<le> 2 * u"
    using q(3) p(3) by linarith
  have p1: "0 \<le> 1 - p'" "1 - p' \<le> 1"
    using p' by simp_all
  define c where "c = fmul q gr"
  have qg: "0 \<le> q * gr" "q * gr \<le> 1"
    using q rr by (simp_all add: mult_le_one)
  have c: "0 \<le> c" "c \<le> 1" "\<bar>c - q * gr\<bar> \<le> u"
    using fl_unit [OF qg] by (simp_all add: c_def fmul_def u_def)
  have c': "\<bar>c - (1 - p') * gr'\<bar> \<le> E + 3 * u"
    using mult_error [OF q' er rr p1] c(3) by linarith
  have "\<bar>b - c\<bar> \<le> 2 powi 2"
    using bb c by simp
  from fl_error_le [OF this] have g1: "\<bar>fsub b c - (b - c)\<bar> \<le> 4 * u"
    by (simp add: fsub_def u_def power_int_minus)
  have "\<bar>fsub b c - (cur' - p' * gl' - (1 - p') * gr')\<bar> \<le> 3 * E + 10 * u"
    using g1 b' c' by linarith
  moreover have "(3 * ?K + 2) * 2 powi (- 50) = 3 * E + 16 * u"
    unfolding E_def u(1) by (simp add: algebra_simps)
  ultimately have "\<bar>fsub b c - (cur' - p' * gl' - (1 - p') * gr')\<bar> \<le> (3 * ?K + 2) * 2 powi (- 50)"
    using u(4) by linarith
  then show ?thesis
    by (simp add: gain_of_def gain_exact_def b_def a_def c_def q_def p_def p'_def
        cur_def gl_def gr_def cur'_def gl'_def gr'_def)
qed

subsection \<open>A gain between two sides of the same distribution\<close>

lemma info_gain_DataFrame:
  assumes "''Model'' \<in> set cols" and "ls \<noteq> []" and "rs \<noteq> []"
  shows "info_gain pw (DataFrame cols ls) (DataFrame cols rs) cur = Inr (gain_of pw ls rs cur)"
  using assms by (simp add: info_gain_def gini_DataFrame gain_of_def)

lemma thirds_impurity_left:
  "impurity pow_nearest [shape_row ''V'' ''A'', shape_row ''V'' ''B'', shape_row ''V'' ''B'']
     = 2001599834386887 / 4503599627370496"
  by (simp add: impurity_def labels_def unique_def float_ops fl_values)

lemma thirds_impurity_right:
  "impurity pow_nearest [shape_row ''U'' ''A'', shape_row ''U'' ''A'', shape_row ''U'' ''B'',
      shape_row ''U'' ''B'', shape_row ''U'' ''B'', shape_row ''U'' ''B'']
     = 2001599834386887 / 4503599627370496"
  by (simp add: impurity_def labels_def unique_def float_ops fl_values)

lemma thirds_impurity:
  "impurity pow_nearest [shape_row ''V'' ''A'', shape_row ''V'' ''B'', shape_row ''V'' ''B'',
      shape_row ''U'' ''A'', shape_row ''U'' ''A'', shape_row ''U'' ''B'',
      shape_row ''U'' ''B'', shape_row ''U'' ''B'', shape_row ''U'' ''B'']
     = 2001599834386887 / 4503599627370496"
  by (simp add: impurity_def labels_def unique_def float_ops fl_values)

text \<open>
  Claim C8, as the specification has it: the gain is never negative when the split
  separates labels, and exactly 0 when both sides have the same label distribution.
  The doubles of the program do not behave so. With the labels A, B, B on the left and
  A, A, B, B, B, B on the right, a third of each side is A; the impurity of the nine
  rows, of the left and of the right side is 0.4444444444444445 each, and
  \<^verbatim>\<open>info_gain\<close> returns \<open>-2\<^sup>-\<^sup>5\<^sup>4\<close>, about -5.55e-17: negative, and not 0.
\<close>

theorem thirds_gain_negative:
  "rows_of thirds_data = rows_of thirds_left @ rows_of thirds_right
   \<and> gini pow_nearest thirds_data = Inr (2001599834386887 / 4503599627370496)
   \<and> info_gain pow_nearest thirds_left thirds_right (2001599834386887 / 4503599627370496)
       = Inr (- (1 / 18014398509481984))"
  by (simp add: thirds_data_def thirds_left_def thirds_right_def gini_DataFrame
      info_gain_DataFrame gain_of_def thirds_impurity thirds_impurity_left
      thirds_impurity_right float_ops fl_values)

text \<open>
  Claim C8, amended: for two non-empty sides and the impurity of their union as parent
  impurity, \<^verbatim>\<open>info_gain\<close> returns the rounded value of
  \<open>parent - p * gini(left) - (1 - p) * gini(right)\<close>. The exact gain, which it
  approximates, is non-negative, and is 0 when every label has the same share on both
  sides. If the library's \<^verbatim>\<open>pow\<close> is accurate to one unit in the last place and the two
  sides have at most \<open>2\<^sup>2\<^sup>4\<close> rows together, the returned gain is within
  \<open>\<epsilon> = (3 * k + 2) * 2\<^sup>-\<^sup>5\<^sup>0\<close> of the exact gain, for \<open>k\<close> distinct labels: it is at least
  \<open>-\<epsilon>\<close>, and at most \<open>\<epsilon>\<close> in absolute value when both sides have the same label
  distribution.
\<close>

theorem info_gain_sign:
  assumes "''Model'' \<in> set cols" and "ls \<noteq> []" and "rs \<noteq> []"
    and "gini pw (DataFrame cols (ls @ rs)) = Inr parent"
  shows "\<exists>g. info_gain pw (DataFrame cols ls) (DataFrame cols rs) parent = Inr g
       \<and> g = gain_of pw ls rs parent
       \<and> 0 \<le> gain_exact ls rs
       \<and> ((\<forall>l. count_list (labels ls) l * length rs = count_list (labels rs) l * length ls)
            \<longrightarrow> gain_exact ls rs = 0)
       \<and> (pow_accurate pw \<and> length ls + length rs \<le> 2 ^ 24 \<longrightarrow>
            \<bar>g - gain_exact ls rs\<bar> \<le> (3 * of_nat (card (set (labels (ls @ rs)))) + 2) * 2 powi (- 50)
            \<and> - ((3 * of_nat (card (set (labels (ls @ rs)))) + 2) * 2 powi (- 50)) \<le> g
            \<and> ((\<forall>l. count_list (labels ls) l * length rs = count_list (labels rs) l * length ls)
                 \<longrightarrow> \<bar>g\<bar> \<le> (3 * of_nat (card (set (labels (ls @ rs)))) + 2) * 2 powi (- 50)))"
proof -
  let ?e = "(3 * of_nat (card (set (labels (ls @ rs)))) + 2) * 2 powi (- 50) :: rat"
  let ?same = "\<forall>l. count_list (labels ls) l * length rs = count_list (labels rs) l * length ls"
  from assms(1,4) have p: "parent = impurity pw (ls @ rs)"
    by (simp add: gini_DataFrame)
  have 1: "info_gain pw (DataFrame cols ls) (DataFrame cols rs) parent = Inr (gain_of pw ls rs parent)"
    using assms(1-3) by (rule info_gain_DataFrame)
  have 2: "0 \<le> gain_exact ls rs"
    using assms(2,3) by (rule gain_exact_nonneg)
  have 3: "?same \<longrightarrow> gain_exact ls rs = 0"
    using gain_exact_same_distribution [OF assms(2,3)] by blast
  have 4: "\<bar>gain_of pw ls rs parent - gain_exact ls rs\<bar> \<le> ?e
      \<and> - ?e \<le> gain_of pw ls rs parent
      \<and> (?same \<longrightarrow> \<bar>gain_of pw ls rs parent\<bar> \<le> ?e)"
    if "pow_accurate pw \<and> length ls + length rs \<le> 2 ^ 24"
  proof -
    from that have e: "\<bar>gain_of pw ls rs parent - gain_exact ls rs\<bar> \<le> ?e"
      unfolding p by (intro gain_error assms(2,3)) simp_all
    from e 2 have "- ?e \<le> gain_of pw ls rs parent"
      by linarith
    moreover have "?same \<longrightarrow> \<bar>gain_of pw ls rs parent\<bar> \<le> ?e"
    proof
      assume ?same
      with 3 have "gain_exact ls rs = 0" by blast
      with e show "\<bar>gain_of pw ls rs parent\<bar> \<le> ?e" by simp
    qed
    ultimately show ?thesis
      using e by blast
  qed
  from 1 2 3 4 show ?thesis
    by blast
qed

theorem info_gain_sign_witness:
  "\<exists>g. info_gain pow_nearest thirds_left thirds_right (2001599834386887 / 4503599627370496) = Inr g
     \<and> g = - (1 / 18014398509481984)
     \<and> \<bar>g\<bar> \<le> 8 * 2 powi (- 50)
     \<and> gain_exact (rows_of thirds_left) (rows_of thirds_right) = 0"
proof -
  let ?ls = "[shape_row ''V'' ''A'', shape_row ''V'' ''B'', shape_row ''V'' ''B'']"
  let ?rs = "[shape_row ''U'' ''A'', shape_row ''U'' ''A'', shape_row ''U'' ''B'',
      shape_row ''U'' ''B'', shape_row ''U'' ''B'', shape_row ''U'' ''B'']"
  have m: "''Model'' \<in> set [''Shape'', ''Model'']" by simp
  have ne: "?ls \<noteq> []" "?rs \<noteq> []" by simp_all
  have g: "gini pow_nearest (DataFrame [''Shape'', ''Model''] (?ls @ ?rs))
      = Inr (2001599834386887 / 4503599627370496)"
    by (simp add: gini_DataFrame thirds_impurity)
  have d: "\<forall>l. count_list (labels ?ls) l * length ?rs = count_list (labels ?rs) l * length ?ls"
    by (simp add: labels_def)
  have h: "pow_accurate pow_nearest \<and> length ?ls + length ?rs \<le> 2 ^ 24"
    by (simp add: pow_nearest_accurate)
  have k: "card (set (labels (?ls @ ?rs))) = 2"
    by (simp add: labels_def insert_commute)
  have v: "gain_of pow_nearest ?ls ?rs (2001599834386887 / 4503599627370496)
      = - (1 / 18014398509481984)"
    by (simp add: gain_of_def thirds_impurity_left thirds_impurity_right float_ops fl_values)
  from info_gain_sign [OF m ne g] d h
  show ?thesis
    unfolding k v thirds_left_def thirds_right_def by simp
qed


end
